theory Spec2Isabelle
  imports Main "HOL-Library.Multiset" "HOL-Library.Sublist"
begin

unbundle bit_operations_syntax

section \<open>The issue mirror: data\<close>

text \<open>
  The program lists the open issues of one repository page by page, writes every issue
  as a JSON file, and for an issue with comments lists the comments page by page and
  writes every comment as a JSON file. It exists in two copies, the command
  \<^verbatim>\<open>cmd/mirrorjekyllissues/mirrorjekyllissues.go\<close> and an older file that logs with the
  package \<^verbatim>\<open>log\<close> and calls the issue tracker through an older client. The command is
  embedded first; the older file has an embedding of its own further down, and its
  definitions carry the suffix \<open>_log\<close>.

  The embedding is a trace semantics. The program never reads back what it wrote: its
  control flow depends on the answers of its collaborators only (the issue tracker, the
  JSON encoder, the file system's verdict on a call). A function of the model therefore
  returns the list of actions the code performs, in order, and how the code ends; the
  state of the disk and of the loggers is the result of replaying the actions.
\<close>

type_synonym path = string
type_synonym bytes = string
type_synonym perm = nat
type_synonym goerror = string

text \<open>
  \<^verbatim>\<open>github.Issue\<close> and \<^verbatim>\<open>github.IssueComment\<close> are structs of pointer fields. The code
  reads \<^verbatim>\<open>Number\<close>, \<^verbatim>\<open>Comments\<close> and \<^verbatim>\<open>ID\<close>; a nil pointer is \<open>None\<close>. Everything else
  of a record is opaque to the program and kept as one value. The fields are Go
  \<^verbatim>\<open>int\<close>s on which the program does no arithmetic (it compares \<^verbatim>\<open>Comments\<close> with zero
  and prints the others), so they are integers here.
\<close>

record Issue =
  Number :: "int option"
  Comments :: "int option"
  IssueRest :: string

record IssueComment =
  ID :: "int option"
  CommentRest :: string

text \<open>
  \<^verbatim>\<open>issuemirror.Root\<close> is a type of another repository. The program uses three of its
  methods, which map numbers to paths; they are parameters of the model.
\<close>

record Root =
  IssueJSONFile :: "int \<Rightarrow> path"
  IssueCommentsDir :: "int \<Rightarrow> path"
  IssueCommentFile :: "int \<Rightarrow> int \<Rightarrow> path"

text \<open>
  The collaborators. A list call answers a page number with an error or with the items of
  the page (a slice of pointers, each of which may be nil) and the response's
  \<^verbatim>\<open>NextPage\<close>; the other arguments of the calls are constants of the program (the
  background context, owner and repository \<^verbatim>\<open>jekyll\<close>, state \<^verbatim>\<open>open\<close>, sort
  \<^verbatim>\<open>created\<close>, direction \<^verbatim>\<open>asc\<close>, 100 items a page). \<^verbatim>\<open>json.Marshal\<close> answers with an
  error or the bytes. \<^verbatim>\<open>os.MkdirAll\<close> and \<^verbatim>\<open>ioutil.WriteFile\<close> fail or succeed as the
  environment decides, by path. \<^verbatim>\<open>filepath.Dir\<close> is the library's.
  \<^verbatim>\<open>jekyllissues.Open\<close> opens the root directory.
\<close>

record env =
  OpenRoot :: "goerror + Root"
  ListByRepo :: "int \<Rightarrow> goerror + (Issue option list \<times> int)"
  ListComments :: "int \<Rightarrow> int \<Rightarrow> goerror + (IssueComment option list \<times> int)"
  MarshalIssue :: "Issue \<Rightarrow> goerror + bytes"
  MarshalComment :: "IssueComment \<Rightarrow> goerror + bytes"
  MkdirAllErr :: "path \<Rightarrow> goerror option"
  WriteFileErr :: "path \<Rightarrow> goerror option"
  Dir :: "path \<Rightarrow> path"

text \<open>
  The lines the program logs. The format strings are kept as constructors and the numbers
  they print as arguments; the two durations the program prints (\<^verbatim>\<open>start\<close> and
  \<^verbatim>\<open>time.Since(start)\<close>) are left out.
\<close>

datatype msg =
    MProcessingIssues nat
  | MStarted int
  | MListCommentsCall int int
  | MListingCommentsFailed int int goerror
  | MWritingCommentsFailed int int goerror
  | MFinished int
  | MProcessingComments nat int
  | MOpenFailed goerror
  | MListByRepoCall int
  | MListingIssuesFailed int goerror
  | MWritingIssuesFailed int goerror
  | MNoMorePages

text \<open>
  What a directory or a file is made for: the code derives every path from an issue
  number, or from an issue number and a comment id.
\<close>

datatype purpose =
    IssueDir int
  | IssueFile int
  | CommentsDir int
  | CommentFile int int

text \<open>
  The actions, in the order the code performs them. \<open>ActPrintf\<close> is a call of
  \<^verbatim>\<open>debug.Printf\<close> (or \<^verbatim>\<open>debug.Println\<close>, which calls it): it appends one line to the
  buffer of the command's logger, under the logger's mutex. \<open>ActFprintln\<close> is the
  statement \<^verbatim>\<open>fmt.Fprintln(os.Stderr, d.String())\<close> of \<^verbatim>\<open>debugLogger.Fatalf\<close>, which
  prints the buffer as it is at that moment. \<open>ActLog\<close> is a call of the package
  \<^verbatim>\<open>log\<close> in the older file: one line written to the error stream. A call of the file
  system carries its purpose, its arguments and its result (\<open>None\<close> is Go's nil error).
\<close>

datatype action =
    ActPrintf msg
  | ActFprintln
  | ActLog msg
  | ActListByRepo int
  | ActListComments int int
  | ActMkdirAll purpose path perm "goerror option"
  | ActWriteFile purpose path bytes perm "goerror option"

text \<open>
  How a piece of code ends: it returns, it leaves the process through \<^verbatim>\<open>os.Exit\<close> (the
  two \<^verbatim>\<open>Fatal\<close> functions), or it panics on a nil pointer.
\<close>

datatype 'a outcome = Return 'a | Exit nat | Panic

type_synonym 'a run = "action list \<times> 'a outcome"

definition after :: "action list \<Rightarrow> 'a run option \<Rightarrow> 'a run option" where
  "after t r = map_option (\<lambda>(t', out). (t @ t', out)) r"

text \<open>
  \<^verbatim>\<open>debugLogger.Fatalf\<close> (\<^verbatim>\<open>Fatalln\<close> formats its arguments and calls it) is three
  statements with no lock around them: it calls \<^verbatim>\<open>Printf\<close>, prints the buffer, and
  leaves the process with status 1. \<^verbatim>\<open>log.Fatalf\<close> of the older file writes its line
  and leaves the process with status 1.
\<close>

definition Fatalf :: "msg \<Rightarrow> 'a run option" where
  "Fatalf m = Some ([ActPrintf m, ActFprintln], Exit 1)"

definition log_Fatalf :: "msg \<Rightarrow> 'a run option" where
  "log_Fatalf m = Some ([ActLog m], Exit 1)"

section \<open>The error group\<close>

text \<open>
  \<^verbatim>\<open>errgroup.Group\<close>: \<^verbatim>\<open>Go\<close> starts a goroutine for a function, \<^verbatim>\<open>Wait\<close> blocks until every
  function has returned and gives the first non-nil error any of them returned
  (\<^verbatim>\<open>errOnce\<close>). The goroutines of a group run concurrently: their actions are
  interleaved, and when one of them leaves the process or panics, the others stop
  wherever they are.

  A unit of a group is the trace of its function and the way the function ends. The
  scheduler is a sequence of choices \<open>pick\<close>: \<open>pick 0\<close> chooses, among the units that
  have not ended, the one that takes the next step, and the rest of the sequence
  schedules what follows. A step of a unit is its next action or, when it has none
  left, its end: a unit that returns leaves the group, and a unit that exits or panics
  ends the run of the whole group. \<open>interleave\<close> gives the events of the group in
  order, an action (\<open>Inl\<close>) or the end of a unit (\<open>Inr\<close>).
\<close>

function interleave :: "(nat \<Rightarrow> nat) \<Rightarrow> 'r run list \<Rightarrow> (action + 'r outcome) list" where
  "interleave pick us =
     (if us = [] then []
      else
        (case us ! (pick 0 mod length us) of
           (a # t, out) \<Rightarrow>
             Inl a # interleave (\<lambda>k. pick (Suc k)) (us[pick 0 mod length us := (t, out)])
         | ([], Return r) \<Rightarrow>
             Inr (Return r) #
             interleave (\<lambda>k. pick (Suc k))
               (take (pick 0 mod length us) us @ drop (Suc (pick 0 mod length us)) us)
         | ([], Exit n) \<Rightarrow> [Inr (Exit n)]
         | ([], Panic) \<Rightarrow> [Inr Panic]))"
  by pat_completeness auto

termination
proof (relation "measure (\<lambda>(pick, us). sum_list (map (\<lambda>u. Suc (length (fst u))) us))")
  show "wf (measure (\<lambda>(pick, us). sum_list (map (\<lambda>u. Suc (length (fst u))) us)))"
    by simp
next
  fix pick :: "nat \<Rightarrow> nat" and us :: "'r run list" and x1 x2 x21 x22
  assume ne: "us \<noteq> []" and u: "(x1, x2) = us ! (pick 0 mod length us)" and x1: "x1 = x21 # x22"
  let ?i = "pick 0 mod length us"
  let ?f = "\<lambda>u :: 'r run. Suc (length (fst u))"
  have i: "?i < length us" using ne by simp
  have split: "us = take ?i us @ us ! ?i # drop (Suc ?i) us"
    by (rule id_take_nth_drop [OF i])
  have upd: "us[?i := (x22, x2)] = take ?i us @ (x22, x2) # drop (Suc ?i) us"
    by (rule upd_conv_take_nth_drop [OF i])
  have "sum_list (map ?f us) =
        sum_list (map ?f (take ?i us)) + ?f (us ! ?i) + sum_list (map ?f (drop (Suc ?i) us))"
    by (subst split) simp
  moreover have "sum_list (map ?f (us[?i := (x22, x2)])) =
        sum_list (map ?f (take ?i us)) + ?f (x22, x2) + sum_list (map ?f (drop (Suc ?i) us))"
    by (subst upd) simp
  moreover have "?f (x22, x2) < ?f (us ! ?i)" using u [symmetric] x1 by simp
  ultimately show "((\<lambda>k. pick (Suc k), us[?i := (x22, x2)]), pick, us)
        \<in> measure (\<lambda>(pick, us). sum_list (map ?f us))"
    by simp
next
  fix pick :: "nat \<Rightarrow> nat" and us :: "'r run list" and x1 x2 x1a
  assume ne: "us \<noteq> []" and u: "(x1, x2) = us ! (pick 0 mod length us)"
  let ?i = "pick 0 mod length us"
  let ?f = "\<lambda>u :: 'r run. Suc (length (fst u))"
  have i: "?i < length us" using ne by simp
  have split: "us = take ?i us @ us ! ?i # drop (Suc ?i) us"
    by (rule id_take_nth_drop [OF i])
  have "sum_list (map ?f us) =
        sum_list (map ?f (take ?i us)) + ?f (us ! ?i) + sum_list (map ?f (drop (Suc ?i) us))"
    by (subst split) simp
  then show "((\<lambda>k. pick (Suc k), take ?i us @ drop (Suc ?i) us), pick, us)
        \<in> measure (\<lambda>(pick, us). sum_list (map ?f us))"
    by simp
qed

text \<open>
  The actions among the events, and what \<^verbatim>\<open>Wait\<close> gives at the end of the events:
  the first non-nil error returned when every unit has returned, and otherwise the exit
  or the panic that ended the run.
\<close>

fun actionsOf :: "(action + 'r outcome) list \<Rightarrow> action list" where
  "actionsOf [] = []"
| "actionsOf (Inl a # evs) = a # actionsOf evs"
| "actionsOf (Inr out # evs) = actionsOf evs"

fun groupEnd ::
  "goerror option \<Rightarrow> (action + (goerror option) outcome) list \<Rightarrow> (goerror option) outcome" where
  "groupEnd err [] = Return err"
| "groupEnd err (Inl a # evs) = groupEnd err evs"
| "groupEnd err (Inr (Return r) # evs) =
     groupEnd (case err of None \<Rightarrow> r | Some e \<Rightarrow> Some e) evs"
| "groupEnd err (Inr (Exit n) # evs) = Exit n"
| "groupEnd err (Inr Panic # evs) = Panic"

text \<open>
  A unit that has not ended when its fuel is spent (\<open>None\<close>, see the loops below) leaves
  the group without an end.
\<close>

definition errgroup_Wait ::
  "(nat \<Rightarrow> nat) \<Rightarrow> (goerror option) run option list \<Rightarrow> (goerror option) run option" where
  "errgroup_Wait pick us =
     (if None \<in> set us then None
      else Some (actionsOf (interleave pick (map the us)),
                 groupEnd None (interleave pick (map the us))))"

section \<open>writeComments\<close>

text \<open>
  The loop of \<^verbatim>\<open>writeComments\<close> copies each comment (\<^verbatim>\<open>commentVal := *comment\<close>), which
  panics on a nil pointer in the slice.
\<close>

fun derefAll :: "'a option list \<Rightarrow> 'a list option" where
  "derefAll [] = Some []"
| "derefAll (None # xs) = None"
| "derefAll (Some x # xs) = map_option ((#) x) (derefAll xs)"

text \<open>
  The function given to \<^verbatim>\<open>g.Go\<close> for one comment: the path (both pointers are
  dereferenced), the encoding, the write with mode 0644.
\<close>

definition commentUnit ::
  "env \<Rightarrow> Root \<Rightarrow> Issue \<Rightarrow> IssueComment \<Rightarrow> (goerror option) run option" where
  "commentUnit env root issue commentVal =
     (case Number issue of
        None \<Rightarrow> Some ([], Panic)
      | Some num \<Rightarrow>
         (case ID commentVal of
            None \<Rightarrow> Some ([], Panic)
          | Some cid \<Rightarrow>
             (let commentFile = IssueCommentFile root num cid in
              case MarshalComment env commentVal of
                Inl e \<Rightarrow> Some ([], Return (Some e))
              | Inr commentJSON \<Rightarrow>
                  Some ([ActWriteFile (CommentFile num cid) commentFile commentJSON 420
                           (WriteFileErr env commentFile)],
                        Return (WriteFileErr env commentFile)))))"

text \<open>
  \<^verbatim>\<open>writeComments\<close>: the log line (which dereferences the issue's number), one unit a
  comment, the wait. A nil pointer met by the loop panics; the model lets none of the
  units started before it act.
\<close>

definition writeComments ::
  "env \<Rightarrow> Root \<Rightarrow> (nat \<Rightarrow> nat) \<Rightarrow> Issue \<Rightarrow> IssueComment option list \<Rightarrow>
   (goerror option) run option" where
  "writeComments env root ord issue comments =
     (case Number issue of
        None \<Rightarrow> Some ([], Panic)
      | Some num \<Rightarrow>
          after [ActPrintf (MProcessingComments (length comments) num)]
            (case derefAll comments of
               None \<Rightarrow> Some ([], Panic)
             | Some vals \<Rightarrow>
                 errgroup_Wait ord (map (commentUnit env root issue) vals)))"

section \<open>writeIssues\<close>

text \<open>
  The loop over the comment pages of one issue, from the page it is given (the code
  starts at page 0). The loop has no bound of its own: it ends when a response has
  \<^verbatim>\<open>NextPage\<close> 0, so the model counts fuel, and \<open>None\<close> is a loop that has not ended
  when the fuel is spent. An error of the list call or of the batch goes to
  \<^verbatim>\<open>Fatalf\<close>.
\<close>

fun commentLoop ::
  "env \<Rightarrow> Root \<Rightarrow> (int \<Rightarrow> int \<Rightarrow> nat \<Rightarrow> nat) \<Rightarrow> nat \<Rightarrow> Issue \<Rightarrow> int \<Rightarrow> int \<Rightarrow>
   unit run option" where
  "commentLoop env root cord 0 issueVal num page = None"
| "commentLoop env root cord (Suc fuel) issueVal num page =
     (let t0 = [ActPrintf (MListCommentsCall num page), ActListComments num page] in
      case ListComments env num page of
        Inl e \<Rightarrow> after t0 (Fatalf (MListingCommentsFailed num page e))
      | Inr (comments, nextPage) \<Rightarrow>
         (case writeComments env root (cord num page) issueVal comments of
            None \<Rightarrow> None
          | Some (t1, Return (Some e)) \<Rightarrow>
              after (t0 @ t1) (Fatalf (MWritingCommentsFailed num page e))
          | Some (t1, Return None) \<Rightarrow>
              if nextPage = 0 then Some (t0 @ t1, Return ())
              else after (t0 @ t1) (commentLoop env root cord fuel issueVal num nextPage)
          | Some (t1, Exit n) \<Rightarrow> Some (t0 @ t1, Exit n)
          | Some (t1, Panic) \<Rightarrow> Some (t0 @ t1, Panic)))"

text \<open>
  The function given to \<^verbatim>\<open>g.Go\<close> for one issue. \<open>issueVal\<close> and \<open>num\<close> are the copies
  the loop made for this unit. \<open>issue\<close> is what the range variable \<^verbatim>\<open>issue\<close> points
  to when the unit reaches the test \<^verbatim>\<open>*issue.Comments <= 0\<close>: the function literal
  refers to the variable itself, not to a copy.
\<close>

definition issueUnit ::
  "env \<Rightarrow> Root \<Rightarrow> (int \<Rightarrow> int \<Rightarrow> nat \<Rightarrow> nat) \<Rightarrow> nat \<Rightarrow> Issue \<Rightarrow> int \<Rightarrow> Issue \<Rightarrow>
   (goerror option) run option" where
  "issueUnit env root cord fuel issueVal num issue =
     (let issueFile = IssueJSONFile root num;
          issueDir = Dir env issueFile;
          t0 = [ActPrintf (MStarted num)] in
      case MkdirAllErr env issueDir of
        Some e \<Rightarrow> Some (t0 @ [ActMkdirAll (IssueDir num) issueDir 493 (Some e)], Return (Some e))
      | None \<Rightarrow>
         (let t1 = t0 @ [ActMkdirAll (IssueDir num) issueDir 493 None] in
          case MarshalIssue env issueVal of
            Inl e \<Rightarrow> Some (t1, Return (Some e))
          | Inr issueJSON \<Rightarrow>
             (case WriteFileErr env issueFile of
                Some e \<Rightarrow>
                  Some (t1 @ [ActWriteFile (IssueFile num) issueFile issueJSON 420 (Some e)],
                        Return (Some e))
              | None \<Rightarrow>
                 (let t2 = t1 @ [ActWriteFile (IssueFile num) issueFile issueJSON 420 None] in
                  case Comments issue of
                    None \<Rightarrow> Some (t2, Panic)
                  | Some c \<Rightarrow>
                      if c \<le> 0 then Some (t2, Return None)
                      else
                       (let commentsDir = IssueCommentsDir root num in
                        case MkdirAllErr env commentsDir of
                          Some e \<Rightarrow>
                            Some (t2 @ [ActMkdirAll (CommentsDir num) commentsDir 493 (Some e)],
                                  Return (Some e))
                        | None \<Rightarrow>
                           (let t3 = t2 @ [ActMkdirAll (CommentsDir num) commentsDir 493 None] in
                            case commentLoop env root cord fuel issueVal num 0 of
                              None \<Rightarrow> None
                            | Some (t, Return u) \<Rightarrow>
                                Some (t3 @ t @ [ActPrintf (MFinished num)], Return None)
                            | Some (t, Exit n) \<Rightarrow> Some (t3 @ t, Exit n)
                            | Some (t, Panic) \<Rightarrow> Some (t3 @ t, Panic)))))))"

text \<open>
  The loop of \<^verbatim>\<open>writeIssues\<close> copies each issue and its number
  (\<^verbatim>\<open>issueVal := *issue; num := *issueVal.Number\<close>); both panic on a nil pointer. As
  for the comments, the model has the loop at its end before a unit acts: when the loop
  panics, no unit has done anything.
\<close>

fun derefIssues :: "Issue option list \<Rightarrow> (Issue \<times> int) list option" where
  "derefIssues [] = Some []"
| "derefIssues (None # xs) = None"
| "derefIssues (Some v # xs) =
     (case Number v of
        None \<Rightarrow> None
      | Some n \<Rightarrow> map_option ((#) (v, n)) (derefIssues xs))"

text \<open>
  The sources come with no module file, and they are written against the libraries of
  2016 and 2017 (\<^verbatim>\<open>golang.org/x/net/context\<close>, list calls without a context in the
  older copy): Go gives their \<^verbatim>\<open>for ... range\<close> loop one variable for all its
  iterations (a variable for each iteration needs a module that declares Go 1.22 or
  later). The loop of \<^verbatim>\<open>writeIssues\<close> goes on while the units it has
  started run, and the unit of item \<open>i\<close> reads the variable after the write of its file:
  it finds the item \<open>i\<close> or a later one, the last one once the loop is over. Which one
  is the scheduler's choice \<open>adv\<close>: every function \<open>adv\<close> gives an index from \<open>i\<close> up to
  the last.
\<close>

definition rangeVarAt :: "(nat \<Rightarrow> nat) \<Rightarrow> nat \<Rightarrow> nat \<Rightarrow> nat" where
  "rangeVarAt adv n i = i + adv i mod (n - i)"

definition issueUnits ::
  "env \<Rightarrow> Root \<Rightarrow> (nat \<Rightarrow> nat) \<Rightarrow> (int \<Rightarrow> int \<Rightarrow> nat \<Rightarrow> nat) \<Rightarrow> nat \<Rightarrow> (Issue \<times> int) list \<Rightarrow>
   (goerror option) run option list" where
  "issueUnits env root adv cord fuel vals =
     map (\<lambda>i. issueUnit env root cord fuel (fst (vals ! i)) (snd (vals ! i))
                (fst (vals ! rangeVarAt adv (length vals) i)))
       [0..<length vals]"

definition writeIssues ::
  "env \<Rightarrow> Root \<Rightarrow> (nat \<Rightarrow> nat) \<Rightarrow> (nat \<Rightarrow> nat) \<Rightarrow> (int \<Rightarrow> int \<Rightarrow> nat \<Rightarrow> nat) \<Rightarrow> nat \<Rightarrow>
   Issue option list \<Rightarrow> (goerror option) run option" where
  "writeIssues env root ord adv cord fuel issues =
     after [ActPrintf (MProcessingIssues (length issues))]
       (case derefIssues issues of
          None \<Rightarrow> Some ([], Panic)
        | Some vals \<Rightarrow> errgroup_Wait ord (issueUnits env root adv cord fuel vals))"

section \<open>main\<close>

text \<open>
  The scheduler's choices of one run: for the batch of an issue page the interleaving
  of its units and how far the range variable has moved for each unit, and for
  the batch of a comment page (of an issue, by number) the interleaving of its units.
  The units of a comment batch are interleaved into the trace of the issue's unit
  that waits for them, and the traces of the issues' units are interleaved in turn.
\<close>

record sched =
  IssueOrder :: "int \<Rightarrow> nat \<Rightarrow> nat"
  RangeVar :: "int \<Rightarrow> nat \<Rightarrow> nat"
  CommentOrder :: "int \<Rightarrow> int \<Rightarrow> nat \<Rightarrow> nat"

text \<open>
  The loop over the issue pages, from the page it is given, with fuel \<open>fo\<close> for itself
  and \<open>fi\<close> for each loop over comment pages.
\<close>

fun issuesLoop :: "env \<Rightarrow> Root \<Rightarrow> sched \<Rightarrow> nat \<Rightarrow> nat \<Rightarrow> int \<Rightarrow> unit run option" where
  "issuesLoop env root sch 0 fi page = None"
| "issuesLoop env root sch (Suc fo) fi page =
     (let t0 = [ActPrintf (MListByRepoCall page), ActListByRepo page] in
      case ListByRepo env page of
        Inl e \<Rightarrow> after t0 (Fatalf (MListingIssuesFailed page e))
      | Inr (issues, nextPage) \<Rightarrow>
         (case writeIssues env root (IssueOrder sch page) (RangeVar sch page)
                 (CommentOrder sch) fi issues of
            None \<Rightarrow> None
          | Some (t1, Return (Some e)) \<Rightarrow>
              after (t0 @ t1) (Fatalf (MWritingIssuesFailed page e))
          | Some (t1, Return None) \<Rightarrow>
              if nextPage = 0 then Some (t0 @ t1 @ [ActPrintf MNoMorePages], Return ())
              else after (t0 @ t1) (issuesLoop env root sch fo fi nextPage)
          | Some (t1, Exit n) \<Rightarrow> Some (t0 @ t1, Exit n)
          | Some (t1, Panic) \<Rightarrow> Some (t0 @ t1, Panic)))"

definition main :: "env \<Rightarrow> sched \<Rightarrow> nat \<Rightarrow> nat \<Rightarrow> unit run option" where
  "main env sch fo fi =
     (case OpenRoot env of
        Inl e \<Rightarrow> Fatalf (MOpenFailed e)
      | Inr root \<Rightarrow> issuesLoop env root sch fo fi 0)"


section \<open>The older file\<close>

text \<open>
  The older file is a program of its own (its own \<^verbatim>\<open>package main\<close>), built against the
  libraries of its day: its client takes no context (\<^verbatim>\<open>client.Issues.ListByRepo(owner,
  repo, opt)\<close>, \<^verbatim>\<open>client.Issues.ListComments(owner, repo, num, opt)\<close>), and it has no
  logger of its own but calls the package \<^verbatim>\<open>log\<close>. Its collaborators are a record of
  their own, and its functions are translated from its own text.
\<close>

record env_log =
  OpenRoot_log :: "goerror + Root"
  ListByRepo_log :: "int \<Rightarrow> goerror + (Issue option list \<times> int)"
  ListComments_log :: "int \<Rightarrow> int \<Rightarrow> goerror + (IssueComment option list \<times> int)"
  MarshalIssue_log :: "Issue \<Rightarrow> goerror + bytes"
  MarshalComment_log :: "IssueComment \<Rightarrow> goerror + bytes"
  MkdirAllErr_log :: "path \<Rightarrow> goerror option"
  WriteFileErr_log :: "path \<Rightarrow> goerror option"
  Dir_log :: "path \<Rightarrow> path"

definition commentUnit_log ::
  "env_log \<Rightarrow> Root \<Rightarrow> Issue \<Rightarrow> IssueComment \<Rightarrow> (goerror option) run option" where
  "commentUnit_log env root issue commentVal =
     (case Number issue of
        None \<Rightarrow> Some ([], Panic)
      | Some num \<Rightarrow>
         (case ID commentVal of
            None \<Rightarrow> Some ([], Panic)
          | Some cid \<Rightarrow>
             (let commentFile = IssueCommentFile root num cid in
              case MarshalComment_log env commentVal of
                Inl e \<Rightarrow> Some ([], Return (Some e))
              | Inr commentJSON \<Rightarrow>
                  Some ([ActWriteFile (CommentFile num cid) commentFile commentJSON 420
                           (WriteFileErr_log env commentFile)],
                        Return (WriteFileErr_log env commentFile)))))"

definition writeComments_log ::
  "env_log \<Rightarrow> Root \<Rightarrow> (nat \<Rightarrow> nat) \<Rightarrow> Issue \<Rightarrow> IssueComment option list \<Rightarrow>
   (goerror option) run option" where
  "writeComments_log env root ord issue comments =
     (case Number issue of
        None \<Rightarrow> Some ([], Panic)
      | Some num \<Rightarrow>
          after [ActLog (MProcessingComments (length comments) num)]
            (case derefAll comments of
               None \<Rightarrow> Some ([], Panic)
             | Some vals \<Rightarrow>
                 errgroup_Wait ord (map (commentUnit_log env root issue) vals)))"

fun commentLoop_log ::
  "env_log \<Rightarrow> Root \<Rightarrow> (int \<Rightarrow> int \<Rightarrow> nat \<Rightarrow> nat) \<Rightarrow> nat \<Rightarrow> Issue \<Rightarrow> int \<Rightarrow> int \<Rightarrow>
   unit run option" where
  "commentLoop_log env root cord 0 issueVal num page = None"
| "commentLoop_log env root cord (Suc fuel) issueVal num page =
     (let t0 = [ActLog (MListCommentsCall num page), ActListComments num page] in
      case ListComments_log env num page of
        Inl e \<Rightarrow> after t0 (log_Fatalf (MListingCommentsFailed num page e))
      | Inr (comments, nextPage) \<Rightarrow>
         (case writeComments_log env root (cord num page) issueVal comments of
            None \<Rightarrow> None
          | Some (t1, Return (Some e)) \<Rightarrow>
              after (t0 @ t1) (log_Fatalf (MWritingCommentsFailed num page e))
          | Some (t1, Return None) \<Rightarrow>
              if nextPage = 0 then Some (t0 @ t1, Return ())
              else after (t0 @ t1) (commentLoop_log env root cord fuel issueVal num nextPage)
          | Some (t1, Exit n) \<Rightarrow> Some (t0 @ t1, Exit n)
          | Some (t1, Panic) \<Rightarrow> Some (t0 @ t1, Panic)))"

definition issueUnit_log ::
  "env_log \<Rightarrow> Root \<Rightarrow> (int \<Rightarrow> int \<Rightarrow> nat \<Rightarrow> nat) \<Rightarrow> nat \<Rightarrow> Issue \<Rightarrow> int \<Rightarrow> Issue \<Rightarrow>
   (goerror option) run option" where
  "issueUnit_log env root cord fuel issueVal num issue =
     (let issueFile = IssueJSONFile root num;
          issueDir = Dir_log env issueFile;
          t0 = [ActLog (MStarted num)] in
      case MkdirAllErr_log env issueDir of
        Some e \<Rightarrow> Some (t0 @ [ActMkdirAll (IssueDir num) issueDir 493 (Some e)], Return (Some e))
      | None \<Rightarrow>
         (let t1 = t0 @ [ActMkdirAll (IssueDir num) issueDir 493 None] in
          case MarshalIssue_log env issueVal of
            Inl e \<Rightarrow> Some (t1, Return (Some e))
          | Inr issueJSON \<Rightarrow>
             (case WriteFileErr_log env issueFile of
                Some e \<Rightarrow>
                  Some (t1 @ [ActWriteFile (IssueFile num) issueFile issueJSON 420 (Some e)],
                        Return (Some e))
              | None \<Rightarrow>
                 (let t2 = t1 @ [ActWriteFile (IssueFile num) issueFile issueJSON 420 None] in
                  case Comments issue of
                    None \<Rightarrow> Some (t2, Panic)
                  | Some c \<Rightarrow>
                      if c \<le> 0 then Some (t2, Return None)
                      else
                       (let commentsDir = IssueCommentsDir root num in
                        case MkdirAllErr_log env commentsDir of
                          Some e \<Rightarrow>
                            Some (t2 @ [ActMkdirAll (CommentsDir num) commentsDir 493 (Some e)],
                                  Return (Some e))
                        | None \<Rightarrow>
                           (let t3 = t2 @ [ActMkdirAll (CommentsDir num) commentsDir 493 None] in
                            case commentLoop_log env root cord fuel issueVal num 0 of
                              None \<Rightarrow> None
                            | Some (t, Return u) \<Rightarrow>
                                Some (t3 @ t @ [ActLog (MFinished num)], Return None)
                            | Some (t, Exit n) \<Rightarrow> Some (t3 @ t, Exit n)
                            | Some (t, Panic) \<Rightarrow> Some (t3 @ t, Panic)))))))"

definition issueUnits_log ::
  "env_log \<Rightarrow> Root \<Rightarrow> (nat \<Rightarrow> nat) \<Rightarrow> (int \<Rightarrow> int \<Rightarrow> nat \<Rightarrow> nat) \<Rightarrow> nat \<Rightarrow>
   (Issue \<times> int) list \<Rightarrow> (goerror option) run option list" where
  "issueUnits_log env root adv cord fuel vals =
     map (\<lambda>i. issueUnit_log env root cord fuel (fst (vals ! i)) (snd (vals ! i))
                (fst (vals ! rangeVarAt adv (length vals) i)))
       [0..<length vals]"

definition writeIssues_log ::
  "env_log \<Rightarrow> Root \<Rightarrow> (nat \<Rightarrow> nat) \<Rightarrow> (nat \<Rightarrow> nat) \<Rightarrow> (int \<Rightarrow> int \<Rightarrow> nat \<Rightarrow> nat) \<Rightarrow> nat \<Rightarrow>
   Issue option list \<Rightarrow> (goerror option) run option" where
  "writeIssues_log env root ord adv cord fuel issues =
     after [ActLog (MProcessingIssues (length issues))]
       (case derefIssues issues of
          None \<Rightarrow> Some ([], Panic)
        | Some vals \<Rightarrow> errgroup_Wait ord (issueUnits_log env root adv cord fuel vals))"

fun issuesLoop_log :: "env_log \<Rightarrow> Root \<Rightarrow> sched \<Rightarrow> nat \<Rightarrow> nat \<Rightarrow> int \<Rightarrow> unit run option" where
  "issuesLoop_log env root sch 0 fi page = None"
| "issuesLoop_log env root sch (Suc fo) fi page =
     (let t0 = [ActLog (MListByRepoCall page), ActListByRepo page] in
      case ListByRepo_log env page of
        Inl e \<Rightarrow> after t0 (log_Fatalf (MListingIssuesFailed page e))
      | Inr (issues, nextPage) \<Rightarrow>
         (case writeIssues_log env root (IssueOrder sch page) (RangeVar sch page)
                 (CommentOrder sch) fi issues of
            None \<Rightarrow> None
          | Some (t1, Return (Some e)) \<Rightarrow>
              after (t0 @ t1) (log_Fatalf (MWritingIssuesFailed page e))
          | Some (t1, Return None) \<Rightarrow>
              if nextPage = 0 then Some (t0 @ t1 @ [ActLog MNoMorePages], Return ())
              else after (t0 @ t1) (issuesLoop_log env root sch fo fi nextPage)
          | Some (t1, Exit n) \<Rightarrow> Some (t0 @ t1, Exit n)
          | Some (t1, Panic) \<Rightarrow> Some (t0 @ t1, Panic)))"

definition main_log :: "env_log \<Rightarrow> sched \<Rightarrow> nat \<Rightarrow> nat \<Rightarrow> unit run option" where
  "main_log env sch fo fi =
     (case OpenRoot_log env of
        Inl e \<Rightarrow> log_Fatalf (MOpenFailed e)
      | Inr root \<Rightarrow> issuesLoop_log env root sch fo fi 0)"


section \<open>Replaying a trace: the disk and the loggers\<close>

text \<open>
  The disk is a map from the paths of files to their bytes and mode, and a map from the
  paths of directories to their mode; the process has a file mode creation mask.
  \<^verbatim>\<open>WriteFile\<close> truncates a file that exists and keeps its mode, and creates a file
  that does not exist with the mode of the call less the bits of the mask.
  \<^verbatim>\<open>MkdirAll\<close> makes the directory and every parent of it that does not exist, with
  the mode of the call less the bits of the mask, and leaves a directory that exists as
  it is; the parents of a path are its prefixes up to a separator \<^verbatim>\<open>/\<close>. What a
  failed call leaves on the disk is the file system's affair: the model leaves the disk
  as it was, and the statements about the disk below are about runs that return, in
  which no call has failed, or follow from a comparison of the calls themselves. The
  verdicts of the file system are answers of the environment, so replaying a trace
  makes sense on a disk that agrees with them.

  The logger \<^verbatim>\<open>debug\<close> of the command has a buffer \<open>messages\<close>. \<^verbatim>\<open>Printf\<close> appends a
  line to it, the prefix of \<^verbatim>\<open>nowPrefix\<close> and the message; \<^verbatim>\<open>String\<close> joins the
  lines, and \<^verbatim>\<open>Fatalf\<close> prints them to the error stream. The package \<^verbatim>\<open>log\<close> of
  the older file writes a line, with its prefix, to the error stream at once. A logged
  line is the time prefix and the message; the prefix of the \<open>k\<close>-th line of a logger
  is \<open>clock k\<close>.
\<close>

record world =
  files :: "path \<rightharpoonup> bytes \<times> perm"
  dirs :: "path \<rightharpoonup> perm"
  umask :: perm
  messages :: "(string \<times> msg) list"
  stderr :: "(string \<times> msg) list"

definition masked :: "perm \<Rightarrow> perm \<Rightarrow> perm" where
  "masked m u = m - (m AND u)"

definition parents :: "path \<Rightarrow> path list" where
  "parents p = map (\<lambda>k. take k p) (filter (\<lambda>k. p ! k = CHR ''/'') [1..<length p])"

fun mkdirs :: "perm \<Rightarrow> path list \<Rightarrow> (path \<rightharpoonup> perm) \<Rightarrow> (path \<rightharpoonup> perm)" where
  "mkdirs m [] d = d"
| "mkdirs m (p # ps) d = mkdirs m ps (case d p of Some m' \<Rightarrow> d | None \<Rightarrow> d(p \<mapsto> m))"

fun exec :: "(nat \<Rightarrow> string) \<Rightarrow> action \<Rightarrow> world \<Rightarrow> world" where
  "exec clock (ActPrintf m) w = w\<lparr>messages := messages w @ [(clock (length (messages w)), m)]\<rparr>"
| "exec clock ActFprintln w = w\<lparr>stderr := stderr w @ messages w\<rparr>"
| "exec clock (ActLog m) w = w\<lparr>stderr := stderr w @ [(clock (length (stderr w)), m)]\<rparr>"
| "exec clock (ActListByRepo p) w = w"
| "exec clock (ActListComments n p) w = w"
| "exec clock (ActMkdirAll pu p m r) w =
     (case r of
        Some e \<Rightarrow> w
      | None \<Rightarrow> w\<lparr>dirs := mkdirs (masked m (umask w)) (parents p @ [p]) (dirs w)\<rparr>)"
| "exec clock (ActWriteFile pu p b m r) w =
     (case r of
        Some e \<Rightarrow> w
      | None \<Rightarrow>
         (case files w p of
            Some (b', m') \<Rightarrow> w\<lparr>files := (files w)(p \<mapsto> (b, m'))\<rparr>
          | None \<Rightarrow> w\<lparr>files := (files w)(p \<mapsto> (b, masked m (umask w)))\<rparr>))"

definition replay :: "(nat \<Rightarrow> string) \<Rightarrow> action list \<Rightarrow> world \<Rightarrow> world" where
  "replay clock t w = fold (exec clock) t w"


section \<open>Predicates on traces\<close>

text \<open>
  \<open>dirFirstFrom root D t\<close>: wherever the trace \<open>t\<close> writes a comment file of an issue,
  the successful \<^verbatim>\<open>MkdirAll\<close> of that issue's comments directory stands before the
  write in \<open>t\<close>, or among the actions \<open>D\<close> done before \<open>t\<close>.
\<close>

definition dirFirstFrom :: "Root \<Rightarrow> action set \<Rightarrow> action list \<Rightarrow> bool" where
  "dirFirstFrom root D t \<longleftrightarrow>
     (\<forall>pre post n c p b m r.
        t = pre @ ActWriteFile (CommentFile n c) p b m r # post \<longrightarrow>
        ActMkdirAll (CommentsDir n) (IssueCommentsDir root n) 493 None \<in> D \<union> set pre)"

definition isCommentWrite :: "action \<Rightarrow> bool" where
  "isCommentWrite a = (case a of ActWriteFile (CommentFile n c) p b m r \<Rightarrow> True | _ \<Rightarrow> False)"

section \<open>A simulated source\<close>

text \<open>
  A root with the layout the specification gives as an illustration
  (\<^verbatim>\<open>issues/<number>.json\<close>, \<^verbatim>\<open>issues/<number>/comments/<id>.json\<close>), a source
  given by its pages, an encoder that never fails, and a disk on which only the writes
  fail that the parameter \<open>werr\<close> names; used to run the model on concrete inputs.
\<close>

function decimal :: "nat \<Rightarrow> string" where
  "decimal n = (if n < 10 then [''0123456789'' ! n] else decimal (n div 10) @ [''0123456789'' ! (n mod 10)])"
  by pat_completeness auto

termination by (relation "measure id") auto

definition itoa :: "int \<Rightarrow> string" where
  "itoa n = (if n < 0 then ''-'' @ decimal (nat (- n)) else decimal (nat n))"

definition dirname :: "path \<Rightarrow> path" where
  "dirname p = rev (drop 1 (dropWhile (\<lambda>c. c \<noteq> CHR ''/'') (rev p)))"

definition specRoot :: Root where
  "specRoot = \<lparr>IssueJSONFile = (\<lambda>n. ''issues/'' @ itoa n @ ''.json''),
             IssueCommentsDir = (\<lambda>n. ''issues/'' @ itoa n @ ''/comments''),
             IssueCommentFile = (\<lambda>n c. ''issues/'' @ itoa n @ ''/comments/'' @ itoa c @ ''.json'')\<rparr>"

definition simEnv ::
  "(int \<Rightarrow> goerror + (Issue option list \<times> int)) \<Rightarrow>
   (int \<Rightarrow> int \<Rightarrow> goerror + (IssueComment option list \<times> int)) \<Rightarrow>
   (path \<Rightarrow> goerror option) \<Rightarrow> env" where
  "simEnv issues comments werr =
     \<lparr>OpenRoot = Inr specRoot,
      ListByRepo = issues,
      ListComments = comments,
      MarshalIssue = (\<lambda>v. Inr (''{issue '' @ IssueRest v @ ''}'')),
      MarshalComment = (\<lambda>v. Inr (''{comment '' @ CommentRest v @ ''}'')),
      MkdirAllErr = (\<lambda>p. None),
      WriteFileErr = werr,
      Dir = dirname\<rparr>"

definition mkIssue :: "int \<Rightarrow> int \<Rightarrow> Issue option" where
  "mkIssue n c = Some \<lparr>Number = Some n, Comments = Some c, IssueRest = itoa n\<rparr>"

definition mkComment :: "int \<Rightarrow> IssueComment option" where
  "mkComment c = Some \<lparr>ID = Some c, CommentRest = itoa c\<rparr>"

definition onePage :: "Issue option list \<Rightarrow> int \<Rightarrow> goerror + (Issue option list \<times> int)" where
  "onePage issues p = (if p = 0 then Inr (issues, 0) else Inl ''no such page'')"

definition threeComments :: "int \<Rightarrow> int \<Rightarrow> goerror + (IssueComment option list \<times> int)" where
  "threeComments n p =
     (if p = 0 then Inr ([mkComment (10 * n), mkComment (10 * n + 1)], 2)
      else if p = 2 then Inr ([mkComment (10 * n + 2)], 0)
      else Inl ''no such page'')"

text \<open>
  Two schedules. In \<open>inOrder\<close> the units complete in the order of their items and each
  unit finds the range variable on its own item. In \<open>loopOver\<close> the first unit of a
  batch finds the range variable one item further.
\<close>

definition inOrder :: sched where
  "inOrder = \<lparr>IssueOrder = (\<lambda>p k. 0), RangeVar = (\<lambda>p i. 0), CommentOrder = (\<lambda>n p k. 0)\<rparr>"

definition loopOver :: sched where
  "loopOver = \<lparr>IssueOrder = (\<lambda>p k. 0), RangeVar = (\<lambda>p i. if i = 0 then 1 else 0),
                CommentOrder = (\<lambda>n p k. 0)\<rparr>"

section \<open>Pagination\<close>

text \<open>
  \<open>pageAt nx p k\<close> is the page a loop asks for in its call number \<open>k\<close> (from 0), when it
  starts at page \<open>p\<close> and \<open>nx\<close> gives the \<^verbatim>\<open>NextPage\<close> of the response to a page.
  \<open>endsAt nx p K\<close>: the response to call number \<open>K\<close> (from 1) is the first whose
  \<^verbatim>\<open>NextPage\<close> is 0. \<open>issueBatchOK\<close> and \<open>commentBatchOK\<close>: the list call for a
  page succeeds and the batch of the page is written without an error.
\<close>

fun pageAt :: "(int \<Rightarrow> int) \<Rightarrow> int \<Rightarrow> nat \<Rightarrow> int" where
  "pageAt nx p 0 = p"
| "pageAt nx p (Suc k) = nx (pageAt nx p k)"

definition endsAt :: "(int \<Rightarrow> int) \<Rightarrow> int \<Rightarrow> nat \<Rightarrow> bool" where
  "endsAt nx p K \<longleftrightarrow>
     0 < K \<and> nx (pageAt nx p (K - 1)) = 0 \<and> (\<forall>k<K - 1. nx (pageAt nx p k) \<noteq> 0)"

definition issuesNext :: "env \<Rightarrow> int \<Rightarrow> int" where
  "issuesNext env p = (case ListByRepo env p of Inl e \<Rightarrow> 0 | Inr (issues, nextPage) \<Rightarrow> nextPage)"

definition commentsNext :: "env \<Rightarrow> int \<Rightarrow> int \<Rightarrow> int" where
  "commentsNext env num p =
     (case ListComments env num p of Inl e \<Rightarrow> 0 | Inr (comments, nextPage) \<Rightarrow> nextPage)"

definition isListByRepo :: "action \<Rightarrow> bool" where
  "isListByRepo a = (case a of ActListByRepo p \<Rightarrow> True | _ \<Rightarrow> False)"

definition isListComments :: "action \<Rightarrow> bool" where
  "isListComments a = (case a of ActListComments n p \<Rightarrow> True | _ \<Rightarrow> False)"

definition issueFetches :: "action list \<Rightarrow> nat" where
  "issueFetches t = length (filter isListByRepo t)"

definition commentFetches :: "action list \<Rightarrow> nat" where
  "commentFetches t = length (filter isListComments t)"

definition issueBatchOK :: "env \<Rightarrow> Root \<Rightarrow> sched \<Rightarrow> nat \<Rightarrow> int \<Rightarrow> bool" where
  "issueBatchOK env root sch fi p =
     (case ListByRepo env p of
        Inl e \<Rightarrow> False
      | Inr (issues, nextPage) \<Rightarrow>
         map_option snd
           (writeIssues env root (IssueOrder sch p) (RangeVar sch p) (CommentOrder sch) fi issues)
         = Some (Return None))"

definition commentBatchOK ::
  "env \<Rightarrow> Root \<Rightarrow> (int \<Rightarrow> int \<Rightarrow> nat \<Rightarrow> nat) \<Rightarrow> Issue \<Rightarrow> int \<Rightarrow> int \<Rightarrow> bool" where
  "commentBatchOK env root cord issueVal num p =
     (case ListComments env num p of
        Inl e \<Rightarrow> False
      | Inr (comments, nextPage) \<Rightarrow>
         map_option snd (writeComments env root (cord num p) issueVal comments)
         = Some (Return None))"

definition twoPages :: "int \<Rightarrow> goerror + (Issue option list \<times> int)" where
  "twoPages p =
     (if p = 0 then Inr ([mkIssue 1 0, mkIssue 2 3], 2)
      else if p = 2 then Inr ([mkIssue 3 0], 0)
      else Inl ''no such page'')"


section \<open>The result of a group\<close>

text \<open>
  The ends among the events of a group, in order, and the error an end carries.
  \<open>returned u\<close>: the unit ends by returning. \<open>resultOf u\<close> is the error it returns and
  \<open>traceOf u\<close> what it does. \<open>firstError\<close> is the first error in a list of results.
\<close>

fun endsOf :: "(action + 'r outcome) list \<Rightarrow> 'r outcome list" where
  "endsOf [] = []"
| "endsOf (Inl a # evs) = endsOf evs"
| "endsOf (Inr out # evs) = out # endsOf evs"

definition errorOf :: "(goerror option) outcome \<Rightarrow> goerror option" where
  "errorOf out = (case out of Return r \<Rightarrow> r | _ \<Rightarrow> None)"

fun firstError :: "goerror option list \<Rightarrow> goerror option" where
  "firstError [] = None"
| "firstError (None # rs) = firstError rs"
| "firstError (Some e # rs) = Some e"

definition returned :: "'a run option \<Rightarrow> bool" where
  "returned u = (case u of None \<Rightarrow> False | Some (t, out) \<Rightarrow> (case out of Return r \<Rightarrow> True | _ \<Rightarrow> False))"

definition resultOf :: "(goerror option) run option \<Rightarrow> goerror option" where
  "resultOf u = (case u of None \<Rightarrow> None | Some (t, out) \<Rightarrow> errorOf out)"

definition traceOf :: "'a run option \<Rightarrow> action list" where
  "traceOf u = (case u of None \<Rightarrow> [] | Some (t, out) \<Rightarrow> t)"

text \<open>
  \<open>completed pick us\<close>: the errors the units of a group return, in the order in which
  the units end.
\<close>

definition completed :: "(nat \<Rightarrow> nat) \<Rightarrow> (goerror option) run option list \<Rightarrow> goerror option list" where
  "completed pick us = map errorOf (endsOf (interleave pick (map the us)))"


section \<open>Failures\<close>

text \<open>
  \<open>goodPages env root cord issueVal num page K\<close>: the loop over the comment pages of
  an issue, started at \<open>page\<close>, finds its first \<open>K\<close> list calls and batches without an
  error and with a next page. Then some writes that fail, and sources whose comment
  lists fail, at once and on the second page.
\<close>

definition goodPages ::
  "env \<Rightarrow> Root \<Rightarrow> (int \<Rightarrow> int \<Rightarrow> nat \<Rightarrow> nat) \<Rightarrow> Issue \<Rightarrow> int \<Rightarrow> int \<Rightarrow> nat \<Rightarrow> bool" where
  "goodPages env root cord issueVal num page K \<longleftrightarrow>
     (\<forall>k<K. commentBatchOK env root cord issueVal num (pageAt (commentsNext env num) page k) \<and>
            commentsNext env num (pageAt (commentsNext env num) page k) \<noteq> 0)"

definition failingWrites :: "path \<Rightarrow> goerror option" where
  "failingWrites p =
     (if p = ''issues/7/comments/70.json'' then Some ''write 70 failed''
      else if p = ''issues/7/comments/72.json'' then Some ''write 72 failed''
      else if p = ''issues/2.json'' then Some ''write 2 failed''
      else None)"

definition noComments :: "int \<Rightarrow> int \<Rightarrow> goerror + (IssueComment option list \<times> int)" where
  "noComments n p = Inl ''list failed''"

definition secondPageFails :: "int \<Rightarrow> int \<Rightarrow> goerror + (IssueComment option list \<times> int)" where
  "secondPageFails n p =
     (if p = 0 then Inr ([mkComment (10 * n), mkComment (10 * n + 1)], 2)
      else Inl ''list failed'')"


section \<open>Groups\<close>

declare interleave.simps [simp del]

lemma interleave_Nil [simp]: "interleave pick [] = []"
  by (simp add: interleave.simps)

lemma interleave_action:
  assumes "us \<noteq> []" and "us ! (pick 0 mod length us) = (a # t, out)"
  shows "interleave pick us =
           Inl a # interleave (\<lambda>k. pick (Suc k)) (us[pick 0 mod length us := (t, out)])"
  using assms by (subst interleave.simps) simp

lemma interleave_return:
  assumes "us \<noteq> []" and "us ! (pick 0 mod length us) = ([], Return r)"
  shows "interleave pick us =
           Inr (Return r) # interleave (\<lambda>k. pick (Suc k))
             (take (pick 0 mod length us) us @ drop (Suc (pick 0 mod length us)) us)"
  using assms by (subst interleave.simps) simp

lemma interleave_exit:
  assumes "us \<noteq> []" and "us ! (pick 0 mod length us) = ([], Exit n)"
  shows "interleave pick us = [Inr (Exit n)]"
  using assms by (subst interleave.simps) simp

lemma interleave_panic:
  assumes "us \<noteq> []" and "us ! (pick 0 mod length us) = ([], Panic)"
  shows "interleave pick us = [Inr Panic]"
  using assms by (subst interleave.simps) simp

lemma interleave_induct [case_names Nil action return exit panic]:
  fixes P :: "(nat \<Rightarrow> nat) \<Rightarrow> 'r run list \<Rightarrow> bool"
  assumes nil: "\<And>pick. P pick []"
    and act: "\<And>pick us a t out. us \<noteq> [] \<Longrightarrow> us ! (pick 0 mod length us) = (a # t, out) \<Longrightarrow>
               P (\<lambda>k. pick (Suc k)) (us[pick 0 mod length us := (t, out)]) \<Longrightarrow> P pick us"
    and ret: "\<And>pick us r. us \<noteq> [] \<Longrightarrow> us ! (pick 0 mod length us) = ([], Return r) \<Longrightarrow>
               P (\<lambda>k. pick (Suc k))
                 (take (pick 0 mod length us) us @ drop (Suc (pick 0 mod length us)) us) \<Longrightarrow>
               P pick us"
    and ex: "\<And>pick us n. us \<noteq> [] \<Longrightarrow> us ! (pick 0 mod length us) = ([], Exit n) \<Longrightarrow> P pick us"
    and pa: "\<And>pick us. us \<noteq> [] \<Longrightarrow> us ! (pick 0 mod length us) = ([], Panic) \<Longrightarrow> P pick us"
  shows "P pick us"
proof (induction pick us rule: interleave.induct)
  case (1 pick us)
  show ?case
  proof (cases "us = []")
    case True
    then show ?thesis using nil by simp
  next
    case False
    obtain t out where u: "us ! (pick 0 mod length us) = (t, out)"
      by (cases "us ! (pick 0 mod length us)")
    show ?thesis
    proof (cases t)
      case Nil
      show ?thesis
      proof (cases out)
        case (Return r)
        from 1(1) [OF False u [symmetric] Nil Return] ret [OF False] u Nil Return
        show ?thesis by simp
      next
        case (Exit n)
        with ex [OF False] u Nil show ?thesis by simp
      next
        case Panic
        with pa [OF False] u Nil show ?thesis by simp
      qed
    next
      case (Cons a t')
      from 1(2) [OF False u [symmetric] Cons] act [OF False] u Cons show ?thesis by simp
    qed
  qed
qed

lemma pick_less: "us \<noteq> [] \<Longrightarrow> pick 0 mod length us < length us"
  by simp

lemma set_step_subset:
  assumes "i < length us" and "us ! i = (a # t, out)" and "u \<in> set (us[i := (t, out)])"
  shows "u = (t, out) \<or> u \<in> set us"
  using assms(3) set_update_subset_insert [of us i "(t, out)"] by auto

lemma set_remove_subset: "u \<in> set (take i us @ drop (Suc i) us) \<Longrightarrow> u \<in> set us"
  by (auto dest: in_set_takeD in_set_dropD)

text \<open>
  Every action of a group is an action of one of its units.
\<close>

lemma interleave_actions:
  "a \<in> set (actionsOf (interleave pick us)) \<Longrightarrow> \<exists>u\<in>set us. a \<in> set (fst u)"
proof (induction pick us rule: interleave_induct)
  case (Nil pick)
  then show ?case by simp
next
  case (action pick us b t out)
  let ?i = "pick 0 mod length us"
  have i: "?i < length us" using action(1) by simp
  have mem: "us ! ?i \<in> set us" using i by simp
  from action(4) have "a = b \<or> a \<in> set (actionsOf (interleave (\<lambda>k. pick (Suc k)) (us[?i := (t, out)])))"
    using interleave_action [of us pick b t out] action(1,2) by simp
  then show ?case
  proof
    assume "a = b"
    with mem action(2) show ?thesis by force
  next
    assume "a \<in> set (actionsOf (interleave (\<lambda>k. pick (Suc k)) (us[?i := (t, out)])))"
    from action(3) [OF this] obtain u where u: "u \<in> set (us[?i := (t, out)])" and a: "a \<in> set (fst u)"
      by blast
    from set_step_subset [OF i action(2) u] show ?thesis
    proof
      assume "u = (t, out)"
      with a mem action(2) show ?thesis by force
    next
      assume "u \<in> set us"
      with a show ?thesis by blast
    qed
  qed
next
  case (return pick us r)
  from return(4) have "a \<in> set (actionsOf (interleave (\<lambda>k. pick (Suc k))
         (take (pick 0 mod length us) us @ drop (Suc (pick 0 mod length us)) us)))"
    using interleave_return [of us pick r] return(1,2) by simp
  from return(3) [OF this] show ?case by (blast dest: set_remove_subset)
next
  case (exit pick us n)
  then show ?case by (simp add: interleave_exit)
next
  case (panic pick us)
  then show ?case by (simp add: interleave_panic)
qed

lemma set_step_superset:
  assumes "i < length us" and "u \<in> set us"
  shows "u = us ! i \<or> u \<in> set (us[i := x])"
proof -
  from assms(2) obtain j where j: "j < length us" and u: "u = us ! j"
    by (auto simp: in_set_conv_nth)
  show ?thesis
  proof (cases "j = i")
    case True
    with u show ?thesis by simp
  next
    case False
    with j have "us[i := x] ! j = u" and "j < length (us[i := x])" using u by simp_all
    then show ?thesis by (metis nth_mem)
  qed
qed

lemma set_remove_superset:
  assumes "i < length us" and "u \<in> set us"
  shows "u = us ! i \<or> u \<in> set (take i us @ drop (Suc i) us)"
proof -
  have "us = take i us @ us ! i # drop (Suc i) us"
    by (rule id_take_nth_drop [OF assms(1)])
  then have "set us = insert (us ! i) (set (take i us @ drop (Suc i) us))"
    by (metis Un_insert_right list.simps(15) set_append)
  with assms(2) show ?thesis by auto
qed

lemma concat_step:
  assumes "i < length us" and "us ! i = (a # t, out)"
  shows "mset (concat (map fst us)) = add_mset a (mset (concat (map fst (us[i := (t, out)]))))"
proof -
  have 1: "us = take i us @ (a # t, out) # drop (Suc i) us"
    using id_take_nth_drop [OF assms(1)] assms(2) by simp
  have 2: "us[i := (t, out)] = take i us @ (t, out) # drop (Suc i) us"
    by (rule upd_conv_take_nth_drop [OF assms(1)])
  have "mset (concat (map fst us)) =
        mset (concat (map fst (take i us @ (a # t, out) # drop (Suc i) us)))"
    using 1 by simp
  then show ?thesis unfolding 2 by simp
qed

lemma concat_remove:
  assumes "i < length us" and "us ! i = ([], out)"
  shows "concat (map fst us) = concat (map fst (take i us @ drop (Suc i) us))"
proof -
  have "us = take i us @ ([], out) # drop (Suc i) us"
    using id_take_nth_drop [OF assms(1)] assms(2) by simp
  then have "concat (map fst us) = concat (map fst (take i us @ ([], out) # drop (Suc i) us))"
    by simp
  then show ?thesis by simp
qed

lemma snd_remove:
  assumes "i < length us" and "us ! i = (t, out)"
  shows "mset (map snd us) = add_mset out (mset (map snd (take i us @ drop (Suc i) us)))"
proof -
  have "us = take i us @ (t, out) # drop (Suc i) us"
    using id_take_nth_drop [OF assms(1)] assms(2) by simp
  then have "mset (map snd us) = mset (map snd (take i us @ (t, out) # drop (Suc i) us))"
    by simp
  then show ?thesis by simp
qed

text \<open>
  A group whose units all return lets every unit do all its actions and end; the ends
  are the ends of the units in the order of completion.
\<close>

lemma interleave_all_return:
  assumes "\<forall>u\<in>set us. \<exists>r. snd u = Return r"
  shows "mset (actionsOf (interleave pick us)) = mset (concat (map fst us)) \<and>
         mset (endsOf (interleave pick us)) = mset (map snd us)"
  using assms
proof (induction pick us rule: interleave_induct)
  case (Nil pick)
  show ?case by simp
next
  case (action pick us a t out)
  let ?i = "pick 0 mod length us"
  let ?us = "us[?i := (t, out)]"
  have i: "?i < length us" using action(1) by simp
  have "\<forall>u\<in>set ?us. \<exists>r. snd u = Return r"
  proof
    fix u assume "u \<in> set ?us"
    from set_step_subset [OF i action(2) this] show "\<exists>r. snd u = Return r"
    proof
      assume "u = (t, out)"
      moreover have "us ! ?i \<in> set us" using i by simp
      ultimately show ?thesis using action(2,4) by force
    next
      assume "u \<in> set us"
      with action(4) show ?thesis by blast
    qed
  qed
  from action(3) [OF this] have ih: "mset (actionsOf (interleave (\<lambda>k. pick (Suc k)) ?us)) =
      mset (concat (map fst ?us))" "mset (endsOf (interleave (\<lambda>k. pick (Suc k)) ?us)) =
      mset (map snd ?us)" by simp_all
  have eq: "interleave pick us = Inl a # interleave (\<lambda>k. pick (Suc k)) ?us"
    using interleave_action [of us pick a t out] action(1,2) by simp
  have "map snd ?us = map snd us"
    using action(2) i by (simp add: map_update list_update_same_conv)
  with ih concat_step [OF i action(2)] show ?case unfolding eq by simp
next
  case (return pick us r)
  let ?i = "pick 0 mod length us"
  let ?us = "take ?i us @ drop (Suc ?i) us"
  have i: "?i < length us" using return(1) by simp
  have "\<forall>u\<in>set ?us. \<exists>r. snd u = Return r"
    using return(4) by (blast dest: set_remove_subset)
  from return(3) [OF this] have ih: "mset (actionsOf (interleave (\<lambda>k. pick (Suc k)) ?us)) =
      mset (concat (map fst ?us))" "mset (endsOf (interleave (\<lambda>k. pick (Suc k)) ?us)) =
      mset (map snd ?us)" by simp_all
  have eq: "interleave pick us = Inr (Return r) # interleave (\<lambda>k. pick (Suc k)) ?us"
    using interleave_return [of us pick r] return(1,2) by simp
  from ih concat_remove [OF i return(2)] snd_remove [OF i return(2)] show ?case
    unfolding eq by simp
next
  case (exit pick us n)
  have "us ! (pick 0 mod length us) \<in> set us" using exit(1) by simp
  with exit(2,3) show ?case by force
next
  case (panic pick us)
  have "us ! (pick 0 mod length us) \<in> set us" using panic(1) by simp
  with panic(2,3) show ?case by force
qed

lemma groupEnd_all_return:
  assumes "\<forall>out\<in>set (endsOf evs). \<exists>r. out = Return r"
  shows "groupEnd err evs = Return (firstError (err # map errorOf (endsOf evs)))"
  using assms
proof (induction err evs rule: groupEnd.induct)
  case (1 err)
  show ?case by (cases err) simp_all
next
  case (2 err a evs)
  then show ?case by simp
next
  case (3 err r evs)
  then show ?case by (cases err; cases r) (simp_all add: errorOf_def)
next
  case (4 err n evs)
  then show ?case by simp
next
  case (5 err evs)
  then show ?case by simp
qed

lemma groupEnd_Return_ends:
  "groupEnd err evs = Return r \<Longrightarrow> \<forall>out\<in>set (endsOf evs). \<exists>r'. out = Return r'"
  by (induction err evs rule: groupEnd.induct) auto

text \<open>
  A group returns only if every unit returns.
\<close>

lemma interleave_Return_only_if:
  fixes us :: "(goerror option) run list"
  assumes "groupEnd err (interleave pick us) = Return r"
  shows "\<forall>u\<in>set us. \<exists>r'. snd u = Return r'"
  using assms
proof (induction pick us arbitrary: err rule: interleave_induct)
  case (Nil pick)
  show ?case by simp
next
  case (action pick us a t out)
  let ?i = "pick 0 mod length us"
  let ?us = "us[?i := (t, out)]"
  have i: "?i < length us" using action(1) by simp
  have eq: "interleave pick us = Inl a # interleave (\<lambda>k. pick (Suc k)) ?us"
    using interleave_action [of us pick a t out] action(1,2) by simp
  from action(4) have "groupEnd err (interleave (\<lambda>k. pick (Suc k)) ?us) = Return r"
    unfolding eq by simp
  from action(3) [OF this] have ih: "\<forall>u\<in>set ?us. \<exists>r'. snd u = Return r'" .
  show ?case
  proof
    fix u assume "u \<in> set us"
    from set_step_superset [OF i this, of "(t, out)"] show "\<exists>r'. snd u = Return r'"
    proof
      assume "u = us ! ?i"
      moreover have "(t, out) \<in> set ?us" using i by (simp add: set_update_memI)
      ultimately show ?thesis using ih action(2) by force
    next
      assume "u \<in> set ?us"
      with ih show ?thesis by blast
    qed
  qed
next
  case (return pick us r0)
  let ?i = "pick 0 mod length us"
  let ?us = "take ?i us @ drop (Suc ?i) us"
  have i: "?i < length us" using return(1) by simp
  have eq: "interleave pick us = Inr (Return r0) # interleave (\<lambda>k. pick (Suc k)) ?us"
    using interleave_return [of us pick r0] return(1,2) by simp
  from return(4) have "groupEnd (case err of None \<Rightarrow> r0 | Some e \<Rightarrow> Some e)
      (interleave (\<lambda>k. pick (Suc k)) ?us) = Return r"
    unfolding eq by simp
  from return(3) [OF this] have ih: "\<forall>u\<in>set ?us. \<exists>r'. snd u = Return r'" .
  show ?case
  proof
    fix u assume "u \<in> set us"
    from set_remove_superset [OF i this] ih return(2) show "\<exists>r'. snd u = Return r'"
      by auto
  qed
next
  case (exit pick us n)
  then show ?case using interleave_exit [of us pick n] by simp
next
  case (panic pick us)
  then show ?case using interleave_panic [of us pick] by simp
qed

text \<open>
  The unit whose exit or panic ends the group has done all its actions, in their order.
\<close>

lemma interleave_stops:
  fixes us :: "(goerror option) run list"
  assumes "groupEnd err (interleave pick us) = out" and "out = Exit n \<or> out = Panic"
  shows "\<exists>t. (t, out) \<in> set us \<and> subseq t (actionsOf (interleave pick us))"
  using assms
proof (induction pick us arbitrary: err rule: interleave_induct)
  case (Nil pick)
  then show ?case by auto
next
  case (action pick us a t' out')
  let ?i = "pick 0 mod length us"
  let ?us = "us[?i := (t', out')]"
  have i: "?i < length us" using action(1) by simp
  have eq: "interleave pick us = Inl a # interleave (\<lambda>k. pick (Suc k)) ?us"
    using interleave_action [of us pick a t' out'] action(1,2) by simp
  from action(4) have "groupEnd err (interleave (\<lambda>k. pick (Suc k)) ?us) = out"
    unfolding eq by simp
  from action(3) [OF this action(5)] obtain t where
    t: "(t, out) \<in> set ?us" and sub: "subseq t (actionsOf (interleave (\<lambda>k. pick (Suc k)) ?us))"
    by blast
  from set_step_subset [OF i action(2) t] show ?case
  proof
    assume "(t, out) = (t', out')"
    then have "us ! ?i = (a # t, out)" using action(2) by simp
    then have "(a # t, out) \<in> set us" using i by (metis nth_mem)
    moreover have "subseq (a # t) (actionsOf (interleave pick us))"
      unfolding eq using sub by simp
    ultimately show ?thesis by blast
  next
    assume "(t, out) \<in> set us"
    moreover have "subseq t (actionsOf (interleave pick us))"
      unfolding eq using sub by (simp add: list_emb_Cons)
    ultimately show ?thesis by blast
  qed
next
  case (return pick us r0)
  let ?i = "pick 0 mod length us"
  let ?us = "take ?i us @ drop (Suc ?i) us"
  have eq: "interleave pick us = Inr (Return r0) # interleave (\<lambda>k. pick (Suc k)) ?us"
    using interleave_return [of us pick r0] return(1,2) by simp
  from return(4) have "groupEnd (case err of None \<Rightarrow> r0 | Some e \<Rightarrow> Some e)
      (interleave (\<lambda>k. pick (Suc k)) ?us) = out"
    unfolding eq by simp
  from return(3) [OF this return(5)] obtain t where
    t: "(t, out) \<in> set ?us" and sub: "subseq t (actionsOf (interleave (\<lambda>k. pick (Suc k)) ?us))"
    by blast
  from t have "(t, out) \<in> set us" by (rule set_remove_subset)
  moreover have "subseq t (actionsOf (interleave pick us))" unfolding eq using sub by simp
  ultimately show ?case by blast
next
  case (exit pick us n')
  have "us ! (pick 0 mod length us) \<in> set us" using exit(1) by simp
  with exit show ?case using interleave_exit [of us pick n'] by auto
next
  case (panic pick us)
  have "us ! (pick 0 mod length us) \<in> set us" using panic(1) by simp
  with panic show ?case using interleave_panic [of us pick] by auto
qed

lemma errgroup_Wait_Some_iff:
  "errgroup_Wait pick us = Some (t, out) \<longleftrightarrow>
     None \<notin> set us \<and> t = actionsOf (interleave pick (map the us)) \<and>
     out = groupEnd None (interleave pick (map the us))"
  by (auto simp: errgroup_Wait_def)

lemma errgroup_Wait_None_iff: "errgroup_Wait pick us = None \<longleftrightarrow> None \<in> set us"
  by (simp add: errgroup_Wait_def)

lemma the_mem:
  assumes "None \<notin> set us" and "v \<in> set (map the us)"
  shows "Some v \<in> set us"
proof -
  from assms(2) obtain u where "u \<in> set us" and "v = the u" by auto
  with assms(1) show ?thesis by (cases u) auto
qed

lemma errgroup_Wait_set:
  assumes "errgroup_Wait pick us = Some (t, out)" and "a \<in> set t"
  shows "\<exists>t' o'. Some (t', o') \<in> set us \<and> a \<in> set t'"
proof -
  from assms have n: "None \<notin> set us" and "a \<in> set (actionsOf (interleave pick (map the us)))"
    by (simp_all add: errgroup_Wait_Some_iff)
  from interleave_actions [OF this(2)] obtain v where v: "v \<in> set (map the us)" and a: "a \<in> set (fst v)"
    by blast
  obtain t' o' where vv: "v = (t', o')" by (cases v)
  from the_mem [OF n v] vv have "Some (t', o') \<in> set us" by simp
  with a vv show ?thesis by auto
qed

lemma firstError_None_iff: "firstError rs = None \<longleftrightarrow> (\<forall>r\<in>set rs. r = None)"
  by (induction rs rule: firstError.induct) auto

lemma firstError_mem: "firstError rs = Some e \<Longrightarrow> Some e \<in> set rs"
  by (induction rs rule: firstError.induct) auto

lemma returned_iff: "returned u \<longleftrightarrow> (\<exists>t r. u = Some (t, Return r))"
  by (auto simp: returned_def split: option.splits outcome.splits)

lemma traces_the:
  "None \<notin> set us \<Longrightarrow> map fst (map the us) = map traceOf us"
  by (induction us) (auto simp: traceOf_def split: option.splits)

lemma results_the:
  "None \<notin> set us \<Longrightarrow> map errorOf (map snd (map the us)) = map resultOf us"
  by (induction us) (auto simp: resultOf_def split: option.splits)

lemma errgroup_Wait_all_returned:
  assumes "\<forall>u\<in>set us. returned u"
  shows "errgroup_Wait pick us =
           Some (actionsOf (interleave pick (map the us)), Return (firstError (completed pick us))) \<and>
         mset (actionsOf (interleave pick (map the us))) = mset (concat (map traceOf us)) \<and>
         mset (completed pick us) = mset (map resultOf us)"
proof -
  from assms have n: "None \<notin> set us" by (auto simp: returned_iff)
  have all: "\<forall>u\<in>set (map the us). \<exists>r. snd u = Return r"
    using assms by (auto simp: returned_iff)
  let ?evs = "interleave pick (map the us)"
  from interleave_all_return [OF all, of pick]
  have a: "mset (actionsOf ?evs) = mset (concat (map fst (map the us)))"
    and e: "mset (endsOf ?evs) = mset (map snd (map the us))" by simp_all
  from e have "set (endsOf ?evs) = set (map snd (map the us))" by (metis set_mset_mset)
  with all have "\<forall>out\<in>set (endsOf ?evs). \<exists>r. out = Return r" by auto
  from groupEnd_all_return [OF this, of None]
  have g: "groupEnd None ?evs = Return (firstError (completed pick us))"
    by (simp add: completed_def)
  from e have "mset (map errorOf (endsOf ?evs)) = mset (map errorOf (map snd (map the us)))"
    by (metis mset_map)
  also have "map errorOf (map snd (map the us)) = map resultOf us"
    by (rule results_the [OF n])
  finally have c: "mset (completed pick us) = mset (map resultOf us)"
    by (simp add: completed_def)
  from a have a': "mset (actionsOf ?evs) = mset (concat (map traceOf us))"
    unfolding traces_the [OF n] .
  from n g a' c show ?thesis
    by (simp add: errgroup_Wait_def)
qed

lemma errgroup_Wait_returns_only_if:
  assumes "errgroup_Wait pick us = Some (t, Return r)"
  shows "\<forall>u\<in>set us. returned u"
proof
  fix u assume u: "u \<in> set us"
  from assms have n: "None \<notin> set us"
    and g: "groupEnd None (interleave pick (map the us)) = Return r"
    by (simp_all add: errgroup_Wait_Some_iff)
  from n u obtain t' o' where s: "u = Some (t', o')" by (cases u) auto
  with u have "(t', o') \<in> set (map the us)" by force
  with interleave_Return_only_if [OF g] have "\<exists>r'. snd (t', o') = Return r'" by blast
  then obtain r' where "o' = Return r'" by auto
  with s show "returned u" by (simp add: returned_iff)
qed

lemma errgroup_Wait_Return:
  assumes "errgroup_Wait pick us = Some (t, Return r)"
  shows "(\<forall>u\<in>set us. returned u) \<and> mset t = mset (concat (map traceOf us)) \<and>
         r = firstError (completed pick us) \<and> mset (completed pick us) = mset (map resultOf us)"
proof -
  have all: "\<forall>u\<in>set us. returned u" by (rule errgroup_Wait_returns_only_if [OF assms])
  from errgroup_Wait_all_returned [OF all, of pick] assms all show ?thesis by simp
qed

lemma errgroup_Wait_stops:
  assumes "errgroup_Wait pick us = Some (t, out)" and "out = Exit n \<or> out = Panic"
  shows "\<exists>tu. Some (tu, out) \<in> set us \<and> subseq tu t"
proof -
  from assms(1) have n: "None \<notin> set us" and t: "t = actionsOf (interleave pick (map the us))"
    and g: "groupEnd None (interleave pick (map the us)) = out"
    by (simp_all add: errgroup_Wait_Some_iff)
  from interleave_stops [OF g assms(2)] obtain tu where
    "(tu, out) \<in> set (map the us)" and "subseq tu t" unfolding t by blast
  with the_mem [OF n] show ?thesis by blast
qed



section \<open>The order of directory and file\<close>

lemma after_Some_iff:
  "after t r = Some (t', out) \<longleftrightarrow> (\<exists>t1. r = Some (t1, out) \<and> t' = t @ t1)"
  by (cases r) (auto simp: after_def)

lemma after_None_iff: "after t r = None \<longleftrightarrow> r = None"
  by (simp add: after_def)

lemma dirFirstFrom_Nil: "dirFirstFrom root D []"
  by (simp add: dirFirstFrom_def)

lemma dirFirstFrom_mono: "dirFirstFrom root D t \<Longrightarrow> D \<subseteq> D' \<Longrightarrow> dirFirstFrom root D' t"
  unfolding dirFirstFrom_def by blast

lemma dirFirstFrom_Cons_iff:
  "dirFirstFrom root D (a # t) \<longleftrightarrow>
     (\<forall>n c p b m r. a = ActWriteFile (CommentFile n c) p b m r \<longrightarrow>
        ActMkdirAll (CommentsDir n) (IssueCommentsDir root n) 493 None \<in> D) \<and>
     dirFirstFrom root (insert a D) t"
proof
  assume l: "dirFirstFrom root D (a # t)"
  show "(\<forall>n c p b m r. a = ActWriteFile (CommentFile n c) p b m r \<longrightarrow>
        ActMkdirAll (CommentsDir n) (IssueCommentsDir root n) 493 None \<in> D) \<and>
     dirFirstFrom root (insert a D) t"
  proof (intro conjI allI impI)
    fix n c p b m r
    assume "a = ActWriteFile (CommentFile n c) p b m r"
    then have "a # t = [] @ ActWriteFile (CommentFile n c) p b m r # t" by simp
    with l have "ActMkdirAll (CommentsDir n) (IssueCommentsDir root n) 493 None \<in> D \<union> set []"
      unfolding dirFirstFrom_def by blast
    then show "ActMkdirAll (CommentsDir n) (IssueCommentsDir root n) 493 None \<in> D" by simp
  next
    show "dirFirstFrom root (insert a D) t"
      unfolding dirFirstFrom_def
    proof (intro allI impI)
      fix pre post n c p b m r
      assume "t = pre @ ActWriteFile (CommentFile n c) p b m r # post"
      then have "a # t = (a # pre) @ ActWriteFile (CommentFile n c) p b m r # post" by simp
      with l have "ActMkdirAll (CommentsDir n) (IssueCommentsDir root n) 493 None \<in> D \<union> set (a # pre)"
        unfolding dirFirstFrom_def by blast
      then show "ActMkdirAll (CommentsDir n) (IssueCommentsDir root n) 493 None \<in> insert a D \<union> set pre"
        by simp
    qed
  qed
next
  assume r: "(\<forall>n c p b m r. a = ActWriteFile (CommentFile n c) p b m r \<longrightarrow>
        ActMkdirAll (CommentsDir n) (IssueCommentsDir root n) 493 None \<in> D) \<and>
     dirFirstFrom root (insert a D) t"
  show "dirFirstFrom root D (a # t)"
    unfolding dirFirstFrom_def
  proof (intro allI impI)
    fix pre post n c p b m r'
    assume eq: "a # t = pre @ ActWriteFile (CommentFile n c) p b m r' # post"
    show "ActMkdirAll (CommentsDir n) (IssueCommentsDir root n) 493 None \<in> D \<union> set pre"
    proof (cases pre)
      case Nil
      with eq r show ?thesis by simp
    next
      case (Cons x pre')
      with eq have "t = pre' @ ActWriteFile (CommentFile n c) p b m r' # post" and "x = a" by simp_all
      with r have "ActMkdirAll (CommentsDir n) (IssueCommentsDir root n) 493 None \<in> insert a D \<union> set pre'"
        unfolding dirFirstFrom_def by blast
      with Cons \<open>x = a\<close> show ?thesis by auto
    qed
  qed
qed

lemma dirFirstFrom_append:
  assumes "dirFirstFrom root D t1" and "dirFirstFrom root (D \<union> set t1) t2"
  shows "dirFirstFrom root D (t1 @ t2)"
  using assms
proof (induction t1 arbitrary: D)
  case Nil
  then show ?case by simp
next
  case (Cons a t1)
  from Cons.prems(1) have h: "\<forall>n c p b m r. a = ActWriteFile (CommentFile n c) p b m r \<longrightarrow>
        ActMkdirAll (CommentsDir n) (IssueCommentsDir root n) 493 None \<in> D"
    and t1: "dirFirstFrom root (insert a D) t1"
    by (simp_all add: dirFirstFrom_Cons_iff)
  from Cons.prems(2) have "dirFirstFrom root (insert a D \<union> set t1) t2" by simp
  from Cons.IH [OF t1 this] h show ?case by (simp add: dirFirstFrom_Cons_iff)
qed

lemma dirFirstFrom_no_write:
  "\<forall>a\<in>set t. \<not> isCommentWrite a \<Longrightarrow> dirFirstFrom root D t"
  unfolding dirFirstFrom_def by (auto simp: isCommentWrite_def)

lemma dirFirstFrom_single:
  "ActMkdirAll (CommentsDir n) (IssueCommentsDir root n) 493 None \<in> D \<Longrightarrow>
   dirFirstFrom root D [ActWriteFile (CommentFile n c) p b m r]"
  unfolding dirFirstFrom_def by (auto simp: Cons_eq_append_conv)

text \<open>
  Interleaving keeps the order of directory and file: when each unit of a group makes
  the directory before it writes into it, so does the group, whatever the schedule.
\<close>

lemma interleave_dirFirst:
  assumes "\<forall>u\<in>set us. dirFirstFrom root D (fst u)"
  shows "dirFirstFrom root D (actionsOf (interleave pick us))"
  using assms
proof (induction pick us arbitrary: D rule: interleave_induct)
  case (Nil pick)
  show ?case by (simp add: dirFirstFrom_Nil)
next
  case (action pick us a t out)
  let ?i = "pick 0 mod length us"
  let ?us = "us[?i := (t, out)]"
  have i: "?i < length us" using action(1) by simp
  have eq: "interleave pick us = Inl a # interleave (\<lambda>k. pick (Suc k)) ?us"
    using interleave_action [of us pick a t out] action(1,2) by simp
  have "us ! ?i \<in> set us" using i by simp
  with action(2,4) have own: "dirFirstFrom root D (a # t)" by force
  have "\<forall>u\<in>set ?us. dirFirstFrom root (insert a D) (fst u)"
  proof
    fix u assume "u \<in> set ?us"
    from set_step_subset [OF i action(2) this] show "dirFirstFrom root (insert a D) (fst u)"
    proof
      assume "u = (t, out)"
      with own show ?thesis by (simp add: dirFirstFrom_Cons_iff)
    next
      assume "u \<in> set us"
      with action(4) have "dirFirstFrom root D (fst u)" by blast
      then show ?thesis by (rule dirFirstFrom_mono) auto
    qed
  qed
  from action(3) [OF this] own show ?case unfolding eq by (simp add: dirFirstFrom_Cons_iff)
next
  case (return pick us r)
  let ?us = "take (pick 0 mod length us) us @ drop (Suc (pick 0 mod length us)) us"
  have eq: "interleave pick us = Inr (Return r) # interleave (\<lambda>k. pick (Suc k)) ?us"
    using interleave_return [of us pick r] return(1,2) by simp
  have "\<forall>u\<in>set ?us. dirFirstFrom root D (fst u)"
    using return(4) by (blast dest: set_remove_subset)
  from return(3) [OF this] show ?case unfolding eq by simp
next
  case (exit pick us n)
  then show ?case using interleave_exit [of us pick n] by (simp add: dirFirstFrom_Nil)
next
  case (panic pick us)
  then show ?case using interleave_panic [of us pick] by (simp add: dirFirstFrom_Nil)
qed

lemma errgroup_Wait_dirFirst:
  assumes "\<forall>u\<in>set us. \<forall>t out. u = Some (t, out) \<longrightarrow> dirFirstFrom root D t"
    and "errgroup_Wait pick us = Some (t, out)"
  shows "dirFirstFrom root D t"
proof -
  from assms(2) have n: "None \<notin> set us" and t: "t = actionsOf (interleave pick (map the us))"
    by (simp_all add: errgroup_Wait_Some_iff)
  have "\<forall>v\<in>set (map the us). dirFirstFrom root D (fst v)"
  proof
    fix v assume "v \<in> set (map the us)"
    from the_mem [OF n this] assms(1) show "dirFirstFrom root D (fst v)" by (cases v) auto
  qed
  then show ?thesis unfolding t by (rule interleave_dirFirst)
qed

lemma commentUnit_dirFirst:
  assumes "commentUnit env root issue v = Some (t, out)" and "Number issue = Some num"
    and "ActMkdirAll (CommentsDir num) (IssueCommentsDir root num) 493 None \<in> D"
  shows "dirFirstFrom root D t"
  using assms
  by (auto simp: commentUnit_def Let_def dirFirstFrom_Nil dirFirstFrom_single
      split: option.splits sum.splits)

lemma writeComments_dirFirst:
  assumes "writeComments env root ord issue comments = Some (t, out)"
    and "Number issue = Some num"
    and "ActMkdirAll (CommentsDir num) (IssueCommentsDir root num) 493 None \<in> D"
  shows "dirFirstFrom root D t"
proof (cases "derefAll comments")
  case None
  with assms show ?thesis
    by (auto simp: writeComments_def after_Some_iff dirFirstFrom_no_write isCommentWrite_def)
next
  case (Some vals)
  with assms obtain t1 where
    t1: "errgroup_Wait ord (map (commentUnit env root issue) vals) = Some (t1, out)"
    and t: "t = ActPrintf (MProcessingComments (length comments) num) # t1"
    by (auto simp: writeComments_def after_Some_iff)
  have "dirFirstFrom root D t1"
  proof (rule errgroup_Wait_dirFirst [OF _ t1])
    show "\<forall>u\<in>set (map (commentUnit env root issue) vals).
            \<forall>t out. u = Some (t, out) \<longrightarrow> dirFirstFrom root D t"
      using assms(2,3) by (auto intro: commentUnit_dirFirst)
  qed
  then have "dirFirstFrom root (D \<union> set [ActPrintf (MProcessingComments (length comments) num)]) t1"
    by (rule dirFirstFrom_mono) auto
  moreover have "dirFirstFrom root D [ActPrintf (MProcessingComments (length comments) num)]"
    by (rule dirFirstFrom_no_write) (simp add: isCommentWrite_def)
  ultimately have "dirFirstFrom root D ([ActPrintf (MProcessingComments (length comments) num)] @ t1)"
    by (rule dirFirstFrom_append [rotated])
  with t show ?thesis by simp
qed

lemma commentLoop_cases:
  assumes "commentLoop env root cord (Suc fuel) issueVal num page = Some (t, out)"
  obtains
    (list_err) e where
      "ListComments env num page = Inl e"
      "t = [ActPrintf (MListCommentsCall num page), ActListComments num page,
            ActPrintf (MListingCommentsFailed num page e), ActFprintln]"
      "out = Exit 1"
  | (write_err) comments nextPage t1 e where
      "ListComments env num page = Inr (comments, nextPage)"
      "writeComments env root (cord num page) issueVal comments = Some (t1, Return (Some e))"
      "t = [ActPrintf (MListCommentsCall num page), ActListComments num page] @ t1 @
           [ActPrintf (MWritingCommentsFailed num page e), ActFprintln]"
      "out = Exit 1"
  | (last) comments t1 where
      "ListComments env num page = Inr (comments, 0)"
      "writeComments env root (cord num page) issueVal comments = Some (t1, Return None)"
      "t = [ActPrintf (MListCommentsCall num page), ActListComments num page] @ t1"
      "out = Return ()"
  | (more) comments nextPage t1 t2 where
      "ListComments env num page = Inr (comments, nextPage)" "nextPage \<noteq> 0"
      "writeComments env root (cord num page) issueVal comments = Some (t1, Return None)"
      "commentLoop env root cord fuel issueVal num nextPage = Some (t2, out)"
      "t = [ActPrintf (MListCommentsCall num page), ActListComments num page] @ t1 @ t2"
  | (exit) comments nextPage t1 n where
      "ListComments env num page = Inr (comments, nextPage)"
      "writeComments env root (cord num page) issueVal comments = Some (t1, Exit n)"
      "t = [ActPrintf (MListCommentsCall num page), ActListComments num page] @ t1"
      "out = Exit n"
  | (panic) comments nextPage t1 where
      "ListComments env num page = Inr (comments, nextPage)"
      "writeComments env root (cord num page) issueVal comments = Some (t1, Panic)"
      "t = [ActPrintf (MListCommentsCall num page), ActListComments num page] @ t1"
      "out = Panic"
  using assms
  by (auto simp: after_Some_iff Fatalf_def Let_def
      split: option.splits sum.splits if_splits outcome.splits)

lemma commentLoop_dirFirst:
  assumes "commentLoop env root cord fuel issueVal num page = Some (t, out)"
    and "Number issueVal = Some num"
    and "ActMkdirAll (CommentsDir num) (IssueCommentsDir root num) 493 None \<in> D"
  shows "dirFirstFrom root D t"
  using assms
proof (induction fuel arbitrary: page t out D)
  case 0
  then show ?case by simp
next
  case (Suc fuel)
  let ?t0 = "[ActPrintf (MListCommentsCall num page), ActListComments num page]"
  have t0: "dirFirstFrom root D ?t0"
    by (rule dirFirstFrom_no_write) (simp add: isCommentWrite_def)
  have t01: "dirFirstFrom root D (?t0 @ t1)"
    if "writeComments env root ord issueVal comments = Some (t1, o1)" for ord comments t1 o1
  proof (rule dirFirstFrom_append [OF t0])
    show "dirFirstFrom root (D \<union> set ?t0) t1"
      using writeComments_dirFirst [OF that Suc.prems(2), of "D \<union> set ?t0"] Suc.prems(3) by simp
  qed
  have ext: "dirFirstFrom root D ((?t0 @ t1) @ fin)"
    if "writeComments env root ord issueVal comments = Some (t1, o1)"
      and "\<forall>a\<in>set fin. \<not> isCommentWrite a"
    for ord comments t1 o1 fin
  proof (rule dirFirstFrom_append [OF t01 [OF that(1)]])
    show "dirFirstFrom root (D \<union> set (?t0 @ t1)) fin"
      using that(2) by (intro dirFirstFrom_no_write)
  qed
  from Suc.prems(1) show ?case
  proof (cases rule: commentLoop_cases)
    case (list_err e)
    then show ?thesis by (auto intro!: dirFirstFrom_no_write simp: isCommentWrite_def)
  next
    case (write_err comments nextPage t1 e)
    from ext [OF write_err(2), of "[ActPrintf (MWritingCommentsFailed num page e), ActFprintln]"]
      write_err(3)
    show ?thesis by (simp add: isCommentWrite_def)
  next
    case (last comments t1)
    with t01 [OF last(2)] show ?thesis by simp
  next
    case (more comments nextPage t1 t2)
    have "dirFirstFrom root (D \<union> set (?t0 @ t1)) t2"
      using Suc.IH [OF more(4) Suc.prems(2)] Suc.prems(3) by blast
    with t01 [OF more(3)] have "dirFirstFrom root D ((?t0 @ t1) @ t2)"
      by (rule dirFirstFrom_append)
    with more(5) show ?thesis by simp
  next
    case (exit comments nextPage t1 n)
    with t01 [OF exit(2)] show ?thesis by simp
  next
    case (panic comments nextPage t1)
    with t01 [OF panic(2)] show ?thesis by simp
  qed
qed

lemma issueUnit_cases:
  assumes "issueUnit env root cord fuel issueVal num issue = Some (t, out)"
  obtains
    (mkdir_err) e where
      "MkdirAllErr env (Dir env (IssueJSONFile root num)) = Some e"
      "t = [ActPrintf (MStarted num),
            ActMkdirAll (IssueDir num) (Dir env (IssueJSONFile root num)) 493 (Some e)]"
      "out = Return (Some e)"
  | (marshal_err) e where
      "MkdirAllErr env (Dir env (IssueJSONFile root num)) = None"
      "MarshalIssue env issueVal = Inl e"
      "t = [ActPrintf (MStarted num),
            ActMkdirAll (IssueDir num) (Dir env (IssueJSONFile root num)) 493 None]"
      "out = Return (Some e)"
  | (write_err) b e where
      "MkdirAllErr env (Dir env (IssueJSONFile root num)) = None"
      "MarshalIssue env issueVal = Inr b"
      "WriteFileErr env (IssueJSONFile root num) = Some e"
      "t = [ActPrintf (MStarted num),
            ActMkdirAll (IssueDir num) (Dir env (IssueJSONFile root num)) 493 None,
            ActWriteFile (IssueFile num) (IssueJSONFile root num) b 420 (Some e)]"
      "out = Return (Some e)"
  | (nil_comments) b where
      "MkdirAllErr env (Dir env (IssueJSONFile root num)) = None"
      "MarshalIssue env issueVal = Inr b"
      "WriteFileErr env (IssueJSONFile root num) = None"
      "Comments issue = None"
      "t = [ActPrintf (MStarted num),
            ActMkdirAll (IssueDir num) (Dir env (IssueJSONFile root num)) 493 None,
            ActWriteFile (IssueFile num) (IssueJSONFile root num) b 420 None]"
      "out = Panic"
  | (skip) b c where
      "MkdirAllErr env (Dir env (IssueJSONFile root num)) = None"
      "MarshalIssue env issueVal = Inr b"
      "WriteFileErr env (IssueJSONFile root num) = None"
      "Comments issue = Some c" "c \<le> 0"
      "t = [ActPrintf (MStarted num),
            ActMkdirAll (IssueDir num) (Dir env (IssueJSONFile root num)) 493 None,
            ActWriteFile (IssueFile num) (IssueJSONFile root num) b 420 None]"
      "out = Return None"
  | (cdir_err) b c e where
      "MkdirAllErr env (Dir env (IssueJSONFile root num)) = None"
      "MarshalIssue env issueVal = Inr b"
      "WriteFileErr env (IssueJSONFile root num) = None"
      "Comments issue = Some c" "0 < c"
      "MkdirAllErr env (IssueCommentsDir root num) = Some e"
      "t = [ActPrintf (MStarted num),
            ActMkdirAll (IssueDir num) (Dir env (IssueJSONFile root num)) 493 None,
            ActWriteFile (IssueFile num) (IssueJSONFile root num) b 420 None,
            ActMkdirAll (CommentsDir num) (IssueCommentsDir root num) 493 (Some e)]"
      "out = Return (Some e)"
  | (loop_done) b c tl where
      "MkdirAllErr env (Dir env (IssueJSONFile root num)) = None"
      "MarshalIssue env issueVal = Inr b"
      "WriteFileErr env (IssueJSONFile root num) = None"
      "Comments issue = Some c" "0 < c"
      "MkdirAllErr env (IssueCommentsDir root num) = None"
      "commentLoop env root cord fuel issueVal num 0 = Some (tl, Return ())"
      "t = [ActPrintf (MStarted num),
            ActMkdirAll (IssueDir num) (Dir env (IssueJSONFile root num)) 493 None,
            ActWriteFile (IssueFile num) (IssueJSONFile root num) b 420 None,
            ActMkdirAll (CommentsDir num) (IssueCommentsDir root num) 493 None] @ tl @
           [ActPrintf (MFinished num)]"
      "out = Return None"
  | (loop_exit) b c tl n where
      "MkdirAllErr env (Dir env (IssueJSONFile root num)) = None"
      "MarshalIssue env issueVal = Inr b"
      "WriteFileErr env (IssueJSONFile root num) = None"
      "Comments issue = Some c" "0 < c"
      "MkdirAllErr env (IssueCommentsDir root num) = None"
      "commentLoop env root cord fuel issueVal num 0 = Some (tl, Exit n)"
      "t = [ActPrintf (MStarted num),
            ActMkdirAll (IssueDir num) (Dir env (IssueJSONFile root num)) 493 None,
            ActWriteFile (IssueFile num) (IssueJSONFile root num) b 420 None,
            ActMkdirAll (CommentsDir num) (IssueCommentsDir root num) 493 None] @ tl"
      "out = Exit n"
  | (loop_panic) b c tl where
      "MkdirAllErr env (Dir env (IssueJSONFile root num)) = None"
      "MarshalIssue env issueVal = Inr b"
      "WriteFileErr env (IssueJSONFile root num) = None"
      "Comments issue = Some c" "0 < c"
      "MkdirAllErr env (IssueCommentsDir root num) = None"
      "commentLoop env root cord fuel issueVal num 0 = Some (tl, Panic)"
      "t = [ActPrintf (MStarted num),
            ActMkdirAll (IssueDir num) (Dir env (IssueJSONFile root num)) 493 None,
            ActWriteFile (IssueFile num) (IssueJSONFile root num) b 420 None,
            ActMkdirAll (CommentsDir num) (IssueCommentsDir root num) 493 None] @ tl"
      "out = Panic"
  using assms
  unfolding issueUnit_def Let_def
  by (auto split: option.splits sum.splits if_splits outcome.splits)

lemma issueUnit_dirFirst:
  assumes "issueUnit env root cord fuel issueVal num issue = Some (t, out)"
    and "Number issueVal = Some num"
  shows "dirFirstFrom root D t"
proof -
  let ?d = "ActMkdirAll (CommentsDir num) (IssueCommentsDir root num) 493 None"
  have loop: "dirFirstFrom root D (hd @ [?d] @ tl @ fin)"
    if "commentLoop env root cord fuel issueVal num 0 = Some (tl, ol)"
      and "\<forall>a\<in>set hd. \<not> isCommentWrite a" and "\<forall>a\<in>set fin. \<not> isCommentWrite a"
    for hd tl ol fin
  proof -
    have 1: "dirFirstFrom root D (hd @ [?d])"
      using that(2) by (intro dirFirstFrom_no_write) (auto simp: isCommentWrite_def)
    have 2: "dirFirstFrom root (D \<union> set (hd @ [?d])) tl"
      by (rule commentLoop_dirFirst [OF that(1) assms(2)]) simp
    have 3: "dirFirstFrom root D ((hd @ [?d]) @ tl)"
      using 1 2 by (rule dirFirstFrom_append)
    have 4: "dirFirstFrom root (D \<union> set ((hd @ [?d]) @ tl)) fin"
      using that(3) by (intro dirFirstFrom_no_write)
    have "dirFirstFrom root D (((hd @ [?d]) @ tl) @ fin)"
      using 3 4 by (rule dirFirstFrom_append)
    then show ?thesis by simp
  qed
  from assms(1) show ?thesis
  proof (cases rule: issueUnit_cases)
    case (loop_done b c tl)
    from loop [OF loop_done(7), of "[ActPrintf (MStarted num),
            ActMkdirAll (IssueDir num) (Dir env (IssueJSONFile root num)) 493 None,
            ActWriteFile (IssueFile num) (IssueJSONFile root num) b 420 None]"
            "[ActPrintf (MFinished num)]"] loop_done(8)
    show ?thesis by (simp add: isCommentWrite_def)
  next
    case (loop_exit b c tl n)
    from loop [OF loop_exit(7), of "[ActPrintf (MStarted num),
            ActMkdirAll (IssueDir num) (Dir env (IssueJSONFile root num)) 493 None,
            ActWriteFile (IssueFile num) (IssueJSONFile root num) b 420 None]" "[]"] loop_exit(8)
    show ?thesis by (simp add: isCommentWrite_def)
  next
    case (loop_panic b c tl)
    from loop [OF loop_panic(7), of "[ActPrintf (MStarted num),
            ActMkdirAll (IssueDir num) (Dir env (IssueJSONFile root num)) 493 None,
            ActWriteFile (IssueFile num) (IssueJSONFile root num) b 420 None]" "[]"] loop_panic(8)
    show ?thesis by (simp add: isCommentWrite_def)
  qed (auto intro!: dirFirstFrom_no_write simp: isCommentWrite_def)
qed

lemma derefIssues_Number:
  "derefIssues xs = Some vals \<Longrightarrow> (v, n) \<in> set vals \<Longrightarrow> Number v = Some n"
  by (induction xs arbitrary: vals rule: derefIssues.induct)
     (auto split: option.splits)

lemma derefIssues_length: "derefIssues xs = Some vals \<Longrightarrow> length vals = length xs"
  by (induction xs arbitrary: vals rule: derefIssues.induct)
     (auto split: option.splits)

lemma derefIssues_map: "derefIssues xs = Some vals \<Longrightarrow> xs = map (Some \<circ> fst) vals"
  by (induction xs arbitrary: vals rule: derefIssues.induct)
     (auto split: option.splits)

lemma rangeVarAt_bounds: "i < n \<Longrightarrow> i \<le> rangeVarAt adv n i \<and> rangeVarAt adv n i < n"
proof -
  assume "i < n"
  then have "adv i mod (n - i) < n - i" by simp
  then show ?thesis unfolding rangeVarAt_def by linarith
qed

lemma issueUnits_dirFirst:
  assumes "derefIssues xs = Some vals"
    and "u \<in> set (issueUnits env root adv cord fuel vals)" and "u = Some (t, out)"
  shows "dirFirstFrom root D t"
proof -
  from assms(2) obtain i where i: "i < length vals"
    and u: "u = issueUnit env root cord fuel (fst (vals ! i)) (snd (vals ! i))
                  (fst (vals ! rangeVarAt adv (length vals) i))"
    by (auto simp: issueUnits_def)
  have "Number (fst (vals ! i)) = Some (snd (vals ! i))"
    using derefIssues_Number [OF assms(1), of "fst (vals ! i)" "snd (vals ! i)"] i by simp
  with u assms(3) show ?thesis by (metis issueUnit_dirFirst)
qed

lemma writeIssues_dirFirst:
  assumes "writeIssues env root ord adv cord fuel issues = Some (t, out)"
  shows "dirFirstFrom root D t"
proof (cases "derefIssues issues")
  case None
  with assms show ?thesis
    by (auto simp: writeIssues_def after_Some_iff intro!: dirFirstFrom_no_write simp: isCommentWrite_def)
next
  case (Some vals)
  let ?l = "ActPrintf (MProcessingIssues (length issues))"
  from Some assms obtain t1 where
    t1: "errgroup_Wait ord (issueUnits env root adv cord fuel vals) = Some (t1, out)"
    and t: "t = [?l] @ t1"
    by (auto simp: writeIssues_def after_Some_iff)
  have "dirFirstFrom root (D \<union> set [?l]) t1"
    by (rule errgroup_Wait_dirFirst [OF _ t1])
       (auto intro: issueUnits_dirFirst [OF Some])
  moreover have "dirFirstFrom root D [?l]"
    by (rule dirFirstFrom_no_write) (simp add: isCommentWrite_def)
  ultimately show ?thesis unfolding t by (rule dirFirstFrom_append [rotated])
qed

lemma issuesLoop_cases:
  assumes "issuesLoop env root sch (Suc fo) fi page = Some (t, out)"
  obtains
    (list_err) e where
      "ListByRepo env page = Inl e"
      "t = [ActPrintf (MListByRepoCall page), ActListByRepo page,
            ActPrintf (MListingIssuesFailed page e), ActFprintln]"
      "out = Exit 1"
  | (write_err) issues nextPage t1 e where
      "ListByRepo env page = Inr (issues, nextPage)"
      "writeIssues env root (IssueOrder sch page) (RangeVar sch page) (CommentOrder sch) fi issues
         = Some (t1, Return (Some e))"
      "t = [ActPrintf (MListByRepoCall page), ActListByRepo page] @ t1 @
           [ActPrintf (MWritingIssuesFailed page e), ActFprintln]"
      "out = Exit 1"
  | (last) issues t1 where
      "ListByRepo env page = Inr (issues, 0)"
      "writeIssues env root (IssueOrder sch page) (RangeVar sch page) (CommentOrder sch) fi issues
         = Some (t1, Return None)"
      "t = [ActPrintf (MListByRepoCall page), ActListByRepo page] @ t1 @ [ActPrintf MNoMorePages]"
      "out = Return ()"
  | (more) issues nextPage t1 t2 where
      "ListByRepo env page = Inr (issues, nextPage)" "nextPage \<noteq> 0"
      "writeIssues env root (IssueOrder sch page) (RangeVar sch page) (CommentOrder sch) fi issues
         = Some (t1, Return None)"
      "issuesLoop env root sch fo fi nextPage = Some (t2, out)"
      "t = [ActPrintf (MListByRepoCall page), ActListByRepo page] @ t1 @ t2"
  | (exit) issues nextPage t1 n where
      "ListByRepo env page = Inr (issues, nextPage)"
      "writeIssues env root (IssueOrder sch page) (RangeVar sch page) (CommentOrder sch) fi issues
         = Some (t1, Exit n)"
      "t = [ActPrintf (MListByRepoCall page), ActListByRepo page] @ t1"
      "out = Exit n"
  | (panic) issues nextPage t1 where
      "ListByRepo env page = Inr (issues, nextPage)"
      "writeIssues env root (IssueOrder sch page) (RangeVar sch page) (CommentOrder sch) fi issues
         = Some (t1, Panic)"
      "t = [ActPrintf (MListByRepoCall page), ActListByRepo page] @ t1"
      "out = Panic"
  using assms
  by (auto simp: after_Some_iff Fatalf_def Let_def split: option.splits sum.splits if_splits outcome.splits)

lemma issuesLoop_dirFirst:
  assumes "issuesLoop env root sch fo fi page = Some (t, out)"
  shows "dirFirstFrom root D t"
  using assms
proof (induction fo arbitrary: page t out D)
  case 0
  then show ?case by simp
next
  case (Suc fo)
  let ?t0 = "[ActPrintf (MListByRepoCall page), ActListByRepo page]"
  have t0: "dirFirstFrom root D ?t0"
    by (rule dirFirstFrom_no_write) (simp add: isCommentWrite_def)
  have t01: "dirFirstFrom root D (?t0 @ t1)"
    if "writeIssues env root ord adv cord fi issues = Some (t1, o1)" for ord adv cord issues t1 o1
    using t0 writeIssues_dirFirst [OF that] by (rule dirFirstFrom_append)
  have ext: "dirFirstFrom root D ((?t0 @ t1) @ fin)"
    if "writeIssues env root ord adv cord fi issues = Some (t1, o1)"
      and "\<forall>a\<in>set fin. \<not> isCommentWrite a"
    for ord adv cord issues t1 o1 fin
  proof (rule dirFirstFrom_append [OF t01 [OF that(1)]])
    show "dirFirstFrom root (D \<union> set (?t0 @ t1)) fin"
      using that(2) by (intro dirFirstFrom_no_write)
  qed
  from Suc.prems show ?case
  proof (cases rule: issuesLoop_cases)
    case (list_err e)
    then show ?thesis by (auto intro!: dirFirstFrom_no_write simp: isCommentWrite_def)
  next
    case (write_err issues nextPage t1 e)
    from ext [OF write_err(2), of "[ActPrintf (MWritingIssuesFailed page e), ActFprintln]"]
      write_err(3)
    show ?thesis by (simp add: isCommentWrite_def)
  next
    case (last issues t1)
    from ext [OF last(2), of "[ActPrintf MNoMorePages]"] last(3)
    show ?thesis by (simp add: isCommentWrite_def)
  next
    case (more issues nextPage t1 t2)
    have "dirFirstFrom root D ((?t0 @ t1) @ t2)"
      using t01 [OF more(3)] Suc.IH [OF more(4)] by (rule dirFirstFrom_append)
    with more(5) show ?thesis by simp
  next
    case (exit issues nextPage t1 n)
    with t01 [OF exit(2)] show ?thesis by simp
  next
    case (panic issues nextPage t1)
    with t01 [OF panic(2)] show ?thesis by simp
  qed
qed

text \<open>
  Claim C7. In every run of the program, whatever the schedule, the fuel and the way
  the run ends: before each write of a comment file of issue \<open>n\<close> there is, earlier in
  the trace, a successful \<^verbatim>\<open>MkdirAll\<close> of the comments directory of issue \<open>n\<close>
  with mode 0755.
\<close>

theorem comment_directory_first:
  assumes "main env sch fo fi = Some (t, out)"
    and "OpenRoot env = Inr root"
    and "t = pre @ ActWriteFile (CommentFile n c) p b m r # post"
  shows "ActMkdirAll (CommentsDir n) (IssueCommentsDir root n) 493 None \<in> set pre"
proof -
  from assms(1,2) have "issuesLoop env root sch fo fi 0 = Some (t, out)"
    by (simp add: main_def)
  then have "dirFirstFrom root {} t" by (rule issuesLoop_dirFirst)
  with assms(3) show ?thesis unfolding dirFirstFrom_def by blast
qed

theorem comment_directory_first_witness:
  "main (simEnv (onePage [mkIssue 7 3]) threeComments (\<lambda>p. None)) inOrder 1 2 =
     Some ([ActPrintf (MListByRepoCall 0), ActListByRepo 0, ActPrintf (MProcessingIssues 1),
            ActPrintf (MStarted 7), ActMkdirAll (IssueDir 7) ''issues'' 493 None,
            ActWriteFile (IssueFile 7) ''issues/7.json'' ''{issue 7}'' 420 None,
            ActMkdirAll (CommentsDir 7) ''issues/7/comments'' 493 None,
            ActPrintf (MListCommentsCall 7 0), ActListComments 7 0,
            ActPrintf (MProcessingComments 2 7)] @
           ActWriteFile (CommentFile 7 70) ''issues/7/comments/70.json'' ''{comment 70}'' 420 None #
           [ActWriteFile (CommentFile 7 71) ''issues/7/comments/71.json'' ''{comment 71}'' 420 None,
            ActPrintf (MListCommentsCall 7 2), ActListComments 7 2,
            ActPrintf (MProcessingComments 1 7),
            ActWriteFile (CommentFile 7 72) ''issues/7/comments/72.json'' ''{comment 72}'' 420 None,
            ActPrintf (MFinished 7), ActPrintf MNoMorePages], Return ()) \<and>
   OpenRoot (simEnv (onePage [mkIssue 7 3]) threeComments (\<lambda>p. None)) = Inr specRoot \<and>
   ActMkdirAll (CommentsDir 7) (IssueCommentsDir specRoot 7) 493 None \<in>
     set [ActPrintf (MListByRepoCall 0), ActListByRepo 0, ActPrintf (MProcessingIssues 1),
          ActPrintf (MStarted 7), ActMkdirAll (IssueDir 7) ''issues'' 493 None,
          ActWriteFile (IssueFile 7) ''issues/7.json'' ''{issue 7}'' 420 None,
          ActMkdirAll (CommentsDir 7) ''issues/7/comments'' 493 None,
          ActPrintf (MListCommentsCall 7 0), ActListComments 7 0,
          ActPrintf (MProcessingComments 2 7)]"
proof -
  let ?env = "simEnv (onePage [mkIssue 7 3]) threeComments (\<lambda>p. None)"
  have run: "main ?env inOrder 1 2 =
     Some ([ActPrintf (MListByRepoCall 0), ActListByRepo 0, ActPrintf (MProcessingIssues 1),
            ActPrintf (MStarted 7), ActMkdirAll (IssueDir 7) ''issues'' 493 None,
            ActWriteFile (IssueFile 7) ''issues/7.json'' ''{issue 7}'' 420 None,
            ActMkdirAll (CommentsDir 7) ''issues/7/comments'' 493 None,
            ActPrintf (MListCommentsCall 7 0), ActListComments 7 0,
            ActPrintf (MProcessingComments 2 7)] @
           ActWriteFile (CommentFile 7 70) ''issues/7/comments/70.json'' ''{comment 70}'' 420 None #
           [ActWriteFile (CommentFile 7 71) ''issues/7/comments/71.json'' ''{comment 71}'' 420 None,
            ActPrintf (MListCommentsCall 7 2), ActListComments 7 2,
            ActPrintf (MProcessingComments 1 7),
            ActWriteFile (CommentFile 7 72) ''issues/7/comments/72.json'' ''{comment 72}'' 420 None,
            ActPrintf (MFinished 7), ActPrintf MNoMorePages], Return ())"
    by code_simp
  have root: "OpenRoot ?env = Inr specRoot"
    by (simp add: simEnv_def)
  from comment_directory_first [OF run root refl] run root show ?thesis
    by simp
qed

section \<open>The number of list calls\<close>

lemma pageAt_shift: "pageAt nx p (Suc k) = pageAt nx (nx p) k"
  by (induction k) simp_all

lemma endsAt_pos: "endsAt nx p K \<Longrightarrow> 0 < K"
  by (simp add: endsAt_def)

lemma endsAt_zero: "endsAt nx p K \<Longrightarrow> nx p = 0 \<Longrightarrow> K = 1"
proof (rule ccontr)
  assume e: "endsAt nx p K" and z: "nx p = 0" and "K \<noteq> 1"
  with endsAt_pos [OF e] have "0 < K - 1" by simp
  with e have "nx (pageAt nx p 0) \<noteq> 0" unfolding endsAt_def by blast
  with z show False by simp
qed

lemma endsAt_step:
  assumes "endsAt nx p K" and "nx p \<noteq> 0"
  obtains K' where "K = Suc K'" and "endsAt nx (nx p) K'"
proof -
  from assms(1) obtain J where J: "K = Suc J" by (cases K) (auto simp: endsAt_def)
  have "J \<noteq> 0"
  proof
    assume "J = 0"
    with J assms(1) have "nx (pageAt nx p 0) = 0" by (simp add: endsAt_def)
    with assms(2) show False by simp
  qed
  then obtain I where I: "J = Suc I" by (cases J) auto
  have last: "nx (pageAt nx (nx p) I) = 0"
    using assms(1) J I by (simp add: endsAt_def pageAt_shift del: pageAt.simps(2))
  have "nx (pageAt nx (nx p) k) \<noteq> 0" if "k < I" for k
  proof -
    from that have "Suc k < K - 1" using J I by simp
    with assms(1) have "nx (pageAt nx p (Suc k)) \<noteq> 0" unfolding endsAt_def by blast
    then show ?thesis by (simp add: pageAt_shift del: pageAt.simps(2))
  qed
  with last have "endsAt nx (nx p) J" using I by (simp add: endsAt_def)
  with J that show thesis by blast
qed

lemma commentUnit_actions:
  assumes "commentUnit env root issue v = Some (t, out)" and "a \<in> set t"
  shows "\<exists>num cid b. Number issue = Some num \<and> ID v = Some cid \<and> MarshalComment env v = Inr b \<and>
           a = ActWriteFile (CommentFile num cid) (IssueCommentFile root num cid) b 420
                 (WriteFileErr env (IssueCommentFile root num cid))"
  using assms
  by (auto simp: commentUnit_def Let_def split: option.splits sum.splits)

lemma derefAll_map: "derefAll xs = Some vals \<Longrightarrow> xs = map Some vals"
  by (induction xs arbitrary: vals rule: derefAll.induct) auto

lemma writeComments_actions:
  assumes "writeComments env root ord issue comments = Some (t, out)" and "a \<in> set t"
  shows "(\<exists>num. Number issue = Some num \<and> a = ActPrintf (MProcessingComments (length comments) num)) \<or>
         (\<exists>v num cid b. Some v \<in> set comments \<and> Number issue = Some num \<and> ID v = Some cid \<and>
            MarshalComment env v = Inr b \<and>
            a = ActWriteFile (CommentFile num cid) (IssueCommentFile root num cid) b 420
                  (WriteFileErr env (IssueCommentFile root num cid)))"
proof (cases "Number issue")
  case None
  with assms show ?thesis by (simp add: writeComments_def)
next
  case (Some num)
  show ?thesis
  proof (cases "derefAll comments")
    case None
    with Some assms show ?thesis by (auto simp: writeComments_def after_Some_iff)
  next
    case vals: (Some vals)
    from Some vals assms(1) obtain t1 where
      t1: "errgroup_Wait ord (map (commentUnit env root issue) vals) = Some (t1, out)"
      and t: "t = ActPrintf (MProcessingComments (length comments) num) # t1"
      by (auto simp: writeComments_def after_Some_iff)
    from assms(2) t consider "a = ActPrintf (MProcessingComments (length comments) num)" | "a \<in> set t1"
      by auto
    then show ?thesis
    proof cases
      case 1
      with Some show ?thesis by simp
    next
      case 2
      from errgroup_Wait_set [OF t1 2] obtain t' o' where
        "Some (t', o') \<in> set (map (commentUnit env root issue) vals)" and a: "a \<in> set t'"
        by auto
      then obtain v where
        v: "v \<in> set vals" and u: "commentUnit env root issue v = Some (t', o')"
        by (metis (no_types, lifting) imageE list.set_map)
      from v derefAll_map [OF vals] have "Some v \<in> set comments" by auto
      with commentUnit_actions [OF u a] show ?thesis by blast
    qed
  qed
qed

lemma writeComments_no_list:
  assumes "writeComments env root ord issue comments = Some (t, out)"
  shows "filter isListComments t = []" and "filter isListByRepo t = []"
proof -
  have "\<not> isListComments a \<and> \<not> isListByRepo a" if "a \<in> set t" for a
    using writeComments_actions [OF assms that]
    by (auto simp: isListComments_def isListByRepo_def)
  then show "filter isListComments t = []" and "filter isListByRepo t = []"
    by (simp_all add: filter_empty_conv)
qed

lemma commentFetches_simps:
  "commentFetches [] = 0"
  "commentFetches (ActPrintf m # t) = commentFetches t"
  "commentFetches (ActFprintln # t) = commentFetches t"
  "commentFetches (ActListComments n p # t) = Suc (commentFetches t)"
  "commentFetches (t1 @ t2) = commentFetches t1 + commentFetches t2"
  by (simp_all add: commentFetches_def isListComments_def)

lemma issueFetches_simps:
  "issueFetches [] = 0"
  "issueFetches (ActPrintf m # t) = issueFetches t"
  "issueFetches (ActFprintln # t) = issueFetches t"
  "issueFetches (ActListByRepo p # t) = Suc (issueFetches t)"
  "issueFetches (ActListComments n p # t) = issueFetches t"
  "issueFetches (ActMkdirAll pu d md r # t) = issueFetches t"
  "issueFetches (ActWriteFile pu f b md r # t) = issueFetches t"
  "issueFetches (t1 @ t2) = issueFetches t1 + issueFetches t2"
  by (simp_all add: issueFetches_def isListByRepo_def)

lemma writeComments_fetches:
  assumes "writeComments env root ord issue comments = Some (t, out)"
  shows "commentFetches t = 0" and "issueFetches t = 0"
  using writeComments_no_list [OF assms] by (simp_all add: commentFetches_def issueFetches_def)

lemma commentLoop_fetches_bound:
  assumes "commentLoop env root cord fuel issueVal num page = Some (t, out)"
    and "endsAt (commentsNext env num) page K"
  shows "commentFetches t \<le> K \<and> (out = Return () \<longrightarrow> commentFetches t = K)"
  using assms
proof (induction fuel arbitrary: page t K)
  case 0
  then show ?case by simp
next
  case (Suc fuel)
  note pos = endsAt_pos [OF Suc.prems(2)]
  from Suc.prems(1) show ?case
  proof (cases rule: commentLoop_cases)
    case (list_err e)
    with pos show ?thesis by (simp add: commentFetches_simps)
  next
    case (write_err comments nextPage t1 e)
    with pos writeComments_fetches(1) [OF write_err(2)] show ?thesis
      by (simp add: commentFetches_simps)
  next
    case (last comments t1)
    then have "commentsNext env num page = 0" by (simp add: commentsNext_def)
    from endsAt_zero [OF Suc.prems(2) this] last writeComments_fetches(1) [OF last(2)]
    show ?thesis by (simp add: commentFetches_simps)
  next
    case (more comments nextPage t1 t2)
    then have nx: "commentsNext env num page = nextPage" by (simp add: commentsNext_def)
    with more(2) have "commentsNext env num page \<noteq> 0" by simp
    from endsAt_step [OF Suc.prems(2) this] obtain K' where
      K': "K = Suc K'" and e': "endsAt (commentsNext env num) nextPage K'"
      using nx by auto
    from Suc.IH [OF more(4) e'] K' more(5) writeComments_fetches(1) [OF more(3)]
    show ?thesis by (simp add: commentFetches_simps)
  next
    case (exit comments nextPage t1 n)
    with pos writeComments_fetches(1) [OF exit(2)] show ?thesis
      by (simp add: commentFetches_simps)
  next
    case (panic comments nextPage t1)
    with pos writeComments_fetches(1) [OF panic(2)] show ?thesis
      by (simp add: commentFetches_simps)
  qed
qed

lemma commentLoop_returns:
  assumes "endsAt (commentsNext env num) page K"
    and "\<forall>k<K. commentBatchOK env root cord issueVal num (pageAt (commentsNext env num) page k)"
    and "K \<le> fuel"
  shows "\<exists>t. commentLoop env root cord fuel issueVal num page = Some (t, Return ()) \<and>
             commentFetches t = K"
  using assms
proof (induction fuel arbitrary: page K)
  case 0
  with endsAt_pos [OF "0.prems"(1)] show ?case by simp
next
  case (Suc fuel)
  from endsAt_pos [OF Suc.prems(1)] Suc.prems(2)
  have "commentBatchOK env root cord issueVal num (pageAt (commentsNext env num) page 0)"
    by blast
  then obtain comments nextPage t1 where
    l: "ListComments env num page = Inr (comments, nextPage)"
    and w: "writeComments env root (cord num page) issueVal comments = Some (t1, Return None)"
    by (auto simp: commentBatchOK_def split: sum.splits)
  have nx: "commentsNext env num page = nextPage" using l by (simp add: commentsNext_def)
  note f1 = writeComments_fetches(1) [OF w]
  show ?case
  proof (cases "nextPage = 0")
    case True
    with endsAt_zero [OF Suc.prems(1)] nx have "K = 1" by simp
    with True l w f1 show ?thesis by (simp add: commentFetches_simps)
  next
    case False
    with nx have "commentsNext env num page \<noteq> 0" by simp
    from endsAt_step [OF Suc.prems(1) this] obtain K' where
      K': "K = Suc K'" and e': "endsAt (commentsNext env num) nextPage K'"
      using nx by auto
    have ok: "\<forall>k<K'. commentBatchOK env root cord issueVal num (pageAt (commentsNext env num) nextPage k)"
    proof (intro allI impI)
      fix k assume "k < K'"
      then have "Suc k < K" using K' by simp
      with Suc.prems(2) have
        "commentBatchOK env root cord issueVal num (pageAt (commentsNext env num) page (Suc k))"
        by blast
      then show "commentBatchOK env root cord issueVal num (pageAt (commentsNext env num) nextPage k)"
        using nx by (simp add: pageAt_shift del: pageAt.simps(2))
    qed
    from Suc.prems(3) K' have "K' \<le> fuel" by simp
    from Suc.IH [OF e' ok this] obtain t2 where
      t2: "commentLoop env root cord fuel issueVal num nextPage = Some (t2, Return ())"
      and c2: "commentFetches t2 = K'" by blast
    with False l w f1 K' show ?thesis
      by (simp add: after_def commentFetches_simps)
  qed
qed

lemma commentLoop_issueFetches:
  assumes "commentLoop env root cord fuel issueVal num page = Some (t, out)"
  shows "issueFetches t = 0"
  using assms
proof (induction fuel arbitrary: page t)
  case 0
  then show ?case by simp
next
  case (Suc fuel)
  from Suc.prems show ?case
  proof (cases rule: commentLoop_cases)
    case (more comments nextPage t1 t2)
    with Suc.IH [OF more(4)] writeComments_fetches(2) [OF more(3)] show ?thesis
      by (simp add: issueFetches_simps)
  qed (auto simp: issueFetches_simps dest: writeComments_fetches(2))
qed

lemma issueUnit_issueFetches:
  assumes "issueUnit env root cord fuel issueVal num issue = Some (t, out)"
  shows "issueFetches t = 0"
  using assms
  by (cases rule: issueUnit_cases) (auto simp: issueFetches_simps dest: commentLoop_issueFetches)

lemma issueFetches_zero_iff: "issueFetches t = 0 \<longleftrightarrow> (\<forall>a\<in>set t. \<not> isListByRepo a)"
  by (simp add: issueFetches_def filter_empty_conv)

lemma writeIssues_issueFetches:
  assumes "writeIssues env root ord adv cord fuel issues = Some (t, out)"
  shows "issueFetches t = 0"
proof (cases "derefIssues issues")
  case None
  with assms show ?thesis
    by (auto simp: writeIssues_def after_Some_iff issueFetches_simps)
next
  case (Some vals)
  with assms obtain t1 where
    t1: "errgroup_Wait ord (issueUnits env root adv cord fuel vals) = Some (t1, out)"
    and t: "t = ActPrintf (MProcessingIssues (length issues)) # t1"
    by (auto simp: writeIssues_def after_Some_iff)
  have "\<not> isListByRepo a" if "a \<in> set t1" for a
  proof -
    from errgroup_Wait_set [OF t1 that] obtain t' o' where
      "Some (t', o') \<in> set (issueUnits env root adv cord fuel vals)" and a: "a \<in> set t'"
      by auto
    then obtain v n w where "issueUnit env root cord fuel v n w = Some (t', o')"
      unfolding issueUnits_def by (metis (no_types, lifting) imageE list.set_map)
    from issueUnit_issueFetches [OF this] a show ?thesis
      by (simp add: issueFetches_zero_iff)
  qed
  then have "issueFetches t1 = 0" by (simp add: issueFetches_zero_iff)
  with t show ?thesis by (simp add: issueFetches_simps)
qed

lemma issuesLoop_fetches_bound:
  assumes "issuesLoop env root sch fo fi page = Some (t, out)"
    and "endsAt (issuesNext env) page K"
  shows "issueFetches t \<le> K \<and> (out = Return () \<longrightarrow> issueFetches t = K)"
  using assms
proof (induction fo arbitrary: page t K)
  case 0
  then show ?case by simp
next
  case (Suc fo)
  note pos = endsAt_pos [OF Suc.prems(2)]
  from Suc.prems(1) show ?case
  proof (cases rule: issuesLoop_cases)
    case (list_err e)
    with pos show ?thesis by (simp add: issueFetches_simps)
  next
    case (write_err issues nextPage t1 e)
    with pos writeIssues_issueFetches [OF write_err(2)] show ?thesis
      by (simp add: issueFetches_simps)
  next
    case (last issues t1)
    then have "issuesNext env page = 0" by (simp add: issuesNext_def)
    from endsAt_zero [OF Suc.prems(2) this] last writeIssues_issueFetches [OF last(2)]
    show ?thesis by (simp add: issueFetches_simps)
  next
    case (more issues nextPage t1 t2)
    then have nx: "issuesNext env page = nextPage" by (simp add: issuesNext_def)
    with more(2) have "issuesNext env page \<noteq> 0" by simp
    from endsAt_step [OF Suc.prems(2) this] obtain K' where
      K': "K = Suc K'" and e': "endsAt (issuesNext env) nextPage K'"
      using nx by auto
    from Suc.IH [OF more(4) e'] K' more(5) writeIssues_issueFetches [OF more(3)]
    show ?thesis by (simp add: issueFetches_simps)
  next
    case (exit issues nextPage t1 n)
    with pos writeIssues_issueFetches [OF exit(2)] show ?thesis
      by (simp add: issueFetches_simps)
  next
    case (panic issues nextPage t1)
    with pos writeIssues_issueFetches [OF panic(2)] show ?thesis
      by (simp add: issueFetches_simps)
  qed
qed

lemma issuesLoop_returns:
  assumes "endsAt (issuesNext env) page K"
    and "\<forall>k<K. issueBatchOK env root sch fi (pageAt (issuesNext env) page k)"
    and "K \<le> fo"
  shows "\<exists>t. issuesLoop env root sch fo fi page = Some (t, Return ()) \<and> issueFetches t = K"
  using assms
proof (induction fo arbitrary: page K)
  case 0
  with endsAt_pos [OF "0.prems"(1)] show ?case by simp
next
  case (Suc fo)
  from endsAt_pos [OF Suc.prems(1)] Suc.prems(2)
  have "issueBatchOK env root sch fi (pageAt (issuesNext env) page 0)"
    by blast
  then obtain issues nextPage t1 where
    l: "ListByRepo env page = Inr (issues, nextPage)"
    and w: "writeIssues env root (IssueOrder sch page) (RangeVar sch page) (CommentOrder sch) fi issues
              = Some (t1, Return None)"
    by (auto simp: issueBatchOK_def split: sum.splits)
  have nx: "issuesNext env page = nextPage" using l by (simp add: issuesNext_def)
  note f1 = writeIssues_issueFetches [OF w]
  show ?case
  proof (cases "nextPage = 0")
    case True
    with endsAt_zero [OF Suc.prems(1)] nx have "K = 1" by simp
    with True l w f1 show ?thesis by (simp add: issueFetches_simps)
  next
    case False
    with nx have "issuesNext env page \<noteq> 0" by simp
    from endsAt_step [OF Suc.prems(1) this] obtain K' where
      K': "K = Suc K'" and e': "endsAt (issuesNext env) nextPage K'"
      using nx by auto
    have ok: "\<forall>k<K'. issueBatchOK env root sch fi (pageAt (issuesNext env) nextPage k)"
    proof (intro allI impI)
      fix k assume "k < K'"
      then have "Suc k < K" using K' by simp
      with Suc.prems(2) have
        "issueBatchOK env root sch fi (pageAt (issuesNext env) page (Suc k))"
        by blast
      then show "issueBatchOK env root sch fi (pageAt (issuesNext env) nextPage k)"
        using nx by (simp add: pageAt_shift del: pageAt.simps(2))
    qed
    from Suc.prems(3) K' have "K' \<le> fo" by simp
    from Suc.IH [OF e' ok this] obtain t2 where
      t2: "issuesLoop env root sch fo fi nextPage = Some (t2, Return ())"
      and c2: "issueFetches t2 = K'" by blast
    with False l w f1 K' show ?thesis
      by (simp add: after_def issueFetches_simps)
  qed
qed

text \<open>
  Claim C1. Let the response to the \<open>K\<close>-th list call of a loop be the first with
  \<^verbatim>\<open>NextPage\<close> 0. Then a run of the driver that ends has made at most \<open>K\<close> calls of
  \<^verbatim>\<open>ListByRepo\<close>, and exactly \<open>K\<close> when it returns; and when the \<open>K\<close> list calls and
  batches succeed, the driver does return, with any fuel from \<open>K\<close> on, after exactly \<open>K\<close>
  calls. The same holds for the loop over the comment pages of an issue and its calls of
  \<^verbatim>\<open>ListComments\<close>.
\<close>

theorem page_fetches_exact:
  "(endsAt (issuesNext env) 0 K \<and> main env sch fo fi = Some (t, out) \<longrightarrow>
      issueFetches t \<le> K \<and> (out = Return () \<longrightarrow> issueFetches t = K)) \<and>
   (endsAt (issuesNext env) 0 K \<and> OpenRoot env = Inr root \<and> K \<le> fo \<and>
    (\<forall>k<K. issueBatchOK env root sch fi (pageAt (issuesNext env) 0 k)) \<longrightarrow>
      (\<exists>t. main env sch fo fi = Some (t, Return ()) \<and> issueFetches t = K)) \<and>
   (endsAt (commentsNext env num) 0 K \<and>
    commentLoop env root cord fuel issueVal num 0 = Some (t, out') \<longrightarrow>
      commentFetches t \<le> K \<and> (out' = Return () \<longrightarrow> commentFetches t = K)) \<and>
   (endsAt (commentsNext env num) 0 K \<and> K \<le> fuel \<and>
    (\<forall>k<K. commentBatchOK env root cord issueVal num (pageAt (commentsNext env num) 0 k)) \<longrightarrow>
      (\<exists>t. commentLoop env root cord fuel issueVal num 0 = Some (t, Return ()) \<and>
           commentFetches t = K))"
proof (intro conjI impI)
  assume a: "endsAt (issuesNext env) 0 K \<and> main env sch fo fi = Some (t, out)"
  show "issueFetches t \<le> K"
  proof (cases "OpenRoot env")
    case (Inl e)
    with a show ?thesis by (auto simp: main_def Fatalf_def issueFetches_simps)
  next
    case (Inr r)
    with a issuesLoop_fetches_bound [of env r sch fo fi 0 t out K] show ?thesis
      by (simp add: main_def)
  qed
  assume "out = Return ()"
  with a show "issueFetches t = K"
    using issuesLoop_fetches_bound [of env _ sch fo fi 0 t out K]
    by (cases "OpenRoot env") (auto simp: main_def Fatalf_def)
next
  assume "endsAt (issuesNext env) 0 K \<and> OpenRoot env = Inr root \<and> K \<le> fo \<and>
    (\<forall>k<K. issueBatchOK env root sch fi (pageAt (issuesNext env) 0 k))"
  then show "\<exists>t. main env sch fo fi = Some (t, Return ()) \<and> issueFetches t = K"
    using issuesLoop_returns [of env 0 K root sch fi fo] by (simp add: main_def)
next
  assume a: "endsAt (commentsNext env num) 0 K \<and>
    commentLoop env root cord fuel issueVal num 0 = Some (t, out')"
  then show "commentFetches t \<le> K"
    using commentLoop_fetches_bound [of env root cord fuel issueVal num 0 t out' K] by simp
  assume "out' = Return ()"
  with a show "commentFetches t = K"
    using commentLoop_fetches_bound [of env root cord fuel issueVal num 0 t out' K] by simp
next
  assume "endsAt (commentsNext env num) 0 K \<and> K \<le> fuel \<and>
    (\<forall>k<K. commentBatchOK env root cord issueVal num (pageAt (commentsNext env num) 0 k))"
  then show "\<exists>t. commentLoop env root cord fuel issueVal num 0 = Some (t, Return ()) \<and>
           commentFetches t = K"
    using commentLoop_returns [of env num 0 K root cord issueVal fuel] by simp
qed

theorem page_fetches_exact_witness:
  "endsAt (issuesNext (simEnv twoPages threeComments (\<lambda>p. None))) 0 2 \<and>
   OpenRoot (simEnv twoPages threeComments (\<lambda>p. None)) = Inr specRoot \<and>
   issueBatchOK (simEnv twoPages threeComments (\<lambda>p. None)) specRoot inOrder 2 0 \<and>
   issueBatchOK (simEnv twoPages threeComments (\<lambda>p. None)) specRoot inOrder 2 2 \<and>
   (\<exists>t. main (simEnv twoPages threeComments (\<lambda>p. None)) inOrder 2 2 = Some (t, Return ()) \<and>
        issueFetches t = 2) \<and>
   endsAt (commentsNext (simEnv twoPages threeComments (\<lambda>p. None)) 2) 0 2 \<and>
   commentBatchOK (simEnv twoPages threeComments (\<lambda>p. None)) specRoot (\<lambda>n p k. 0)
     \<lparr>Number = Some 2, Comments = Some 3, IssueRest = ''2''\<rparr> 2 0 \<and>
   commentBatchOK (simEnv twoPages threeComments (\<lambda>p. None)) specRoot (\<lambda>n p k. 0)
     \<lparr>Number = Some 2, Comments = Some 3, IssueRest = ''2''\<rparr> 2 2 \<and>
   (\<exists>t. commentLoop (simEnv twoPages threeComments (\<lambda>p. None)) specRoot (\<lambda>n p k. 0) 2
          \<lparr>Number = Some 2, Comments = Some 3, IssueRest = ''2''\<rparr> 2 0 = Some (t, Return ()) \<and>
        commentFetches t = 2)"
proof -
  let ?env = "simEnv twoPages threeComments (\<lambda>p. None)"
  let ?iss = "\<lparr>Number = Some 2, Comments = Some 3, IssueRest = ''2''\<rparr>"
  have nx: "issuesNext ?env 0 = 2" "issuesNext ?env 2 = 0"
    by (simp_all add: issuesNext_def simEnv_def twoPages_def)
  have cnx: "commentsNext ?env 2 0 = 2" "commentsNext ?env 2 2 = 0"
    by (simp_all add: commentsNext_def simEnv_def threeComments_def)
  have e1: "endsAt (issuesNext ?env) 0 2"
    using nx by (simp add: endsAt_def)
  have e2: "endsAt (commentsNext ?env 2) 0 2"
    using cnx by (simp add: endsAt_def)
  have root: "OpenRoot ?env = Inr specRoot"
    by (simp add: simEnv_def)
  have b0: "issueBatchOK ?env specRoot inOrder 2 0" by code_simp
  have b2: "issueBatchOK ?env specRoot inOrder 2 2" by code_simp
  have c0: "commentBatchOK ?env specRoot (\<lambda>n p k. 0) ?iss 2 0" by code_simp
  have c2: "commentBatchOK ?env specRoot (\<lambda>n p k. 0) ?iss 2 2" by code_simp
  have ball: "\<forall>k<2. issueBatchOK ?env specRoot inOrder 2 (pageAt (issuesNext ?env) 0 k)"
    using b0 b2 nx by (simp add: less_Suc_eq numeral_2_eq_2)
  have call: "\<forall>k<2. commentBatchOK ?env specRoot (\<lambda>n p k. 0) ?iss 2
                 (pageAt (commentsNext ?env 2) 0 k)"
    using c0 c2 cnx by (simp add: less_Suc_eq numeral_2_eq_2)
  note inst = page_fetches_exact [where env = ?env and K = 2 and sch = inOrder and fo = 2
      and fi = 2 and root = specRoot and num = 2 and cord = "\<lambda>n p k. 0" and fuel = 2
      and issueVal = ?iss]
  from inst e1 root ball
  have r1: "\<exists>t. main ?env inOrder 2 2 = Some (t, Return ()) \<and> issueFetches t = 2"
    by simp
  from inst e2 call
  have r2: "\<exists>t. commentLoop ?env specRoot (\<lambda>n p k. 0) 2 ?iss 2 0 = Some (t, Return ()) \<and>
              commentFetches t = 2"
    by simp
  from e1 root b0 b2 r1 e2 c0 c2 r2 show ?thesis by blast
qed

lemma commentUnit_returned:
  assumes "Number issue = Some num" and "ID v = Some cid"
  shows "returned (commentUnit env root issue v)"
  using assms by (auto simp: commentUnit_def returned_def Let_def split: sum.splits)

lemma derefIssues_Some_iff:
  "(\<exists>vals. derefIssues xs = Some vals) \<longleftrightarrow> (\<forall>x\<in>set xs. \<exists>v n. x = Some v \<and> Number v = Some n)"
proof (induction xs rule: derefIssues.induct)
  case 1
  show ?case by simp
next
  case (2 xs)
  show ?case by auto
next
  case (3 v xs)
  show ?case
  proof (cases "Number v")
    case None
    then show ?thesis by auto
  next
    case (Some n)
    with 3 [OF Some] show ?thesis by auto
  qed
qed

lemma derefAll_Some_iff: "(\<exists>vals. derefAll xs = Some vals) \<longleftrightarrow> None \<notin> set xs"
  by (induction xs rule: derefAll.induct) auto

section \<open>Nil pointers\<close>








section \<open>The test for comments\<close>

text \<open>
  What the test decides when it reads a count that is not positive: the unit does the
  three steps for the issue file and nothing else.
\<close>

lemma issueUnit_guard_skips:
  assumes "Comments issue = Some c" and "c \<le> 0"
    and "issueUnit env root cord fuel issueVal num issue = Some (t, out)"
  shows "\<exists>b r rest. t @ rest = [ActPrintf (MStarted num),
             ActMkdirAll (IssueDir num) (Dir env (IssueJSONFile root num)) 493 r,
             ActWriteFile (IssueFile num) (IssueJSONFile root num) b 420
               (WriteFileErr env (IssueJSONFile root num))]"
  using assms(3)
proof (cases rule: issueUnit_cases)
  case (mkdir_err e)
  then show ?thesis by auto
next
  case (marshal_err e)
  then show ?thesis by auto
next
  case (write_err b e)
  then show ?thesis by auto
next
  case (nil_comments b)
  with assms(1) show ?thesis by simp
next
  case (skip b c)
  then show ?thesis by auto
qed (use assms(1,2) in auto)

text \<open>
  Claim C6. The claim is what the copy \<open>issueVal\<close> made for the unit would give. The
  code tests the range variable: on a page with issue 1 (no comments) before issue 2
  (three comments), when the loop has moved on before the unit of issue 1 reaches the
  test, that unit finds the count of issue 2, makes the comments directory of issue 1
  and lists the comments of issue 1.
\<close>

theorem zero_count_issue_gets_comments:
  "writeIssues (simEnv (onePage []) threeComments (\<lambda>p. None)) specRoot (\<lambda>k. 0)
     (\<lambda>i. if i = 0 then 1 else 0) (\<lambda>n p k. 0) 2 [mkIssue 1 0, mkIssue 2 3] =
   Some ([ActPrintf (MProcessingIssues 2), ActPrintf (MStarted 1),
          ActMkdirAll (IssueDir 1) ''issues'' 493 None,
          ActWriteFile (IssueFile 1) ''issues/1.json'' ''{issue 1}'' 420 None,
          ActMkdirAll (CommentsDir 1) ''issues/1/comments'' 493 None,
          ActPrintf (MListCommentsCall 1 0), ActListComments 1 0,
          ActPrintf (MProcessingComments 2 1),
          ActWriteFile (CommentFile 1 10) ''issues/1/comments/10.json'' ''{comment 10}'' 420 None,
          ActWriteFile (CommentFile 1 11) ''issues/1/comments/11.json'' ''{comment 11}'' 420 None,
          ActPrintf (MListCommentsCall 1 2), ActListComments 1 2,
          ActPrintf (MProcessingComments 1 1),
          ActWriteFile (CommentFile 1 12) ''issues/1/comments/12.json'' ''{comment 12}'' 420 None,
          ActPrintf (MFinished 1), ActPrintf (MStarted 2),
          ActMkdirAll (IssueDir 2) ''issues'' 493 None,
          ActWriteFile (IssueFile 2) ''issues/2.json'' ''{issue 2}'' 420 None,
          ActMkdirAll (CommentsDir 2) ''issues/2/comments'' 493 None,
          ActPrintf (MListCommentsCall 2 0), ActListComments 2 0,
          ActPrintf (MProcessingComments 2 2),
          ActWriteFile (CommentFile 2 20) ''issues/2/comments/20.json'' ''{comment 20}'' 420 None,
          ActWriteFile (CommentFile 2 21) ''issues/2/comments/21.json'' ''{comment 21}'' 420 None,
          ActPrintf (MListCommentsCall 2 2), ActListComments 2 2,
          ActPrintf (MProcessingComments 1 2),
          ActWriteFile (CommentFile 2 22) ''issues/2/comments/22.json'' ''{comment 22}'' 420 None,
          ActPrintf (MFinished 2)],
         Return None)"
  by code_simp

text \<open>
  Claim C9. The test is \<^verbatim>\<open><= 0\<close>, so a negative count skips the comments when the unit
  reads its own issue; but the unit reads the range variable. On a page with issue 1
  (count -1) before issue 2 (count 3), when the loop has moved on, the unit of issue 1
  makes its comments directory and calls the comment list for issue 1.
\<close>

theorem negative_count_issue_gets_comments:
  "map_option (\<lambda>(t, out). (take 7 t, out))
     (writeIssues (simEnv (onePage []) threeComments (\<lambda>p. None)) specRoot (\<lambda>k. 0)
        (\<lambda>i. if i = 0 then 1 else 0) (\<lambda>n p k. 0) 2 [mkIssue 1 (- 1), mkIssue 2 3]) =
   Some ([ActPrintf (MProcessingIssues 2), ActPrintf (MStarted 1),
          ActMkdirAll (IssueDir 1) ''issues'' 493 None,
          ActWriteFile (IssueFile 1) ''issues/1.json'' ''{issue 1}'' 420 None,
          ActMkdirAll (CommentsDir 1) ''issues/1/comments'' 493 None,
          ActPrintf (MListCommentsCall 1 0), ActListComments 1 0],
         Return None)"
  by code_simp

text \<open>
  Claim C3. On a page with issue 1 (three comments, which the source has on two
  pages) before issue 2 (no comments), when the loop has moved on before the unit of
  issue 1 reaches the test, that unit finds the count of issue 2 and returns: the run
  succeeds, and no file of a comment of issue 1 is written.
\<close>

theorem commented_issue_gets_no_files:
  "main (simEnv (onePage [mkIssue 1 3, mkIssue 2 0]) threeComments (\<lambda>p. None)) loopOver 1 2 =
   Some ([ActPrintf (MListByRepoCall 0), ActListByRepo 0, ActPrintf (MProcessingIssues 2),
          ActPrintf (MStarted 1), ActMkdirAll (IssueDir 1) ''issues'' 493 None,
          ActWriteFile (IssueFile 1) ''issues/1.json'' ''{issue 1}'' 420 None,
          ActPrintf (MStarted 2), ActMkdirAll (IssueDir 2) ''issues'' 493 None,
          ActWriteFile (IssueFile 2) ''issues/2.json'' ''{issue 2}'' 420 None,
          ActPrintf MNoMorePages],
         Return ())"
  by code_simp

section \<open>Batches and their results\<close>

lemma writeComments_no_ListComments:
  assumes "writeComments env root ord issue comments = Some (t, out)"
  shows "ActListComments n p \<notin> set t"
  using writeComments_actions [OF assms] by auto

lemma commentLoop_list_fails:
  assumes "commentLoop env root cord fuel issueVal num page = Some (t, out)"
    and "ActListComments n p \<in> set t" and "ListComments env n p = Inl e"
  shows "n = num \<and> out = Exit 1 \<and>
         (\<exists>t'. t = t' @ [ActPrintf (MListingCommentsFailed num p e), ActFprintln])"
  using assms(1,2)
proof (induction fuel arbitrary: page t)
  case 0
  then show ?case by simp
next
  case (Suc fuel)
  note nl = writeComments_no_ListComments [where n = n and p = p]
  from Suc.prems(1) show ?case
  proof (cases rule: commentLoop_cases)
    case (list_err e')
    with Suc.prems(2) have "n = num" and "p = page" by auto
    with list_err assms(3) show ?thesis by auto
  next
    case (write_err comments nextPage t1 e')
    with Suc.prems(2) nl [OF write_err(2)] have "n = num" and "p = page" by auto
    with write_err(1) assms(3) show ?thesis by simp
  next
    case (last comments t1)
    with Suc.prems(2) nl [OF last(2)] have "n = num" and "p = page" by auto
    with last(1) assms(3) show ?thesis by simp
  next
    case (more comments nextPage t1 t2)
    with Suc.prems(2) nl [OF more(3)] consider "n = num \<and> p = page" | "ActListComments n p \<in> set t2"
      by auto
    then show ?thesis
    proof cases
      case 1
      with more(1) assms(3) show ?thesis by simp
    next
      case 2
      from Suc.IH [OF more(4) 2] more(5) show ?thesis by auto
    qed
  next
    case (exit comments nextPage t1 k)
    with Suc.prems(2) nl [OF exit(2)] have "n = num" and "p = page" by auto
    with exit(1) assms(3) show ?thesis by simp
  next
    case (panic comments nextPage t1)
    with Suc.prems(2) nl [OF panic(2)] have "n = num" and "p = page" by auto
    with panic(1) assms(3) show ?thesis by simp
  qed
qed

lemma commentLoop_batch_fails:
  assumes "commentLoop env root cord fuel issueVal num page = Some (t, out)"
    and "ActListComments n p \<in> set t" and "ListComments env n p = Inr (comments, nextPage)"
    and "map_option snd (writeComments env root (cord n p) issueVal comments) =
           Some (Return (Some e))"
  shows "n = num \<and> out = Exit 1 \<and>
         (\<exists>t'. t = t' @ [ActPrintf (MWritingCommentsFailed num p e), ActFprintln])"
  using assms(1,2)
proof (induction fuel arbitrary: page t)
  case 0
  then show ?case by simp
next
  case (Suc fuel)
  note nl = writeComments_no_ListComments [where n = n and p = p]
  from Suc.prems(1) show ?case
  proof (cases rule: commentLoop_cases)
    case (list_err e')
    with Suc.prems(2) have "n = num" and "p = page" by auto
    with list_err(1) assms(3) show ?thesis by simp
  next
    case (write_err cs np t1 e')
    with Suc.prems(2) nl [OF write_err(2)] have np: "n = num" "p = page" by auto
    with write_err(1) assms(3) have "cs = comments" by simp
    with write_err(2) assms(4) np have "e' = e" by simp
    with write_err np show ?thesis by auto
  next
    case (last cs t1)
    with Suc.prems(2) nl [OF last(2)] have np: "n = num" "p = page" by auto
    with last(1) assms(3) have "cs = comments" by simp
    with last(2) assms(4) np show ?thesis by simp
  next
    case (more cs np t1 t2)
    with Suc.prems(2) nl [OF more(3)] consider "n = num \<and> p = page" | "ActListComments n p \<in> set t2"
      by auto
    then show ?thesis
    proof cases
      case 1
      with more(1) assms(3) have "cs = comments" by simp
      with more(3) assms(4) 1 show ?thesis by simp
    next
      case 2
      from Suc.IH [OF more(4) 2] more(5) show ?thesis by auto
    qed
  next
    case (exit cs np t1 k)
    with Suc.prems(2) nl [OF exit(2)] have np: "n = num" "p = page" by auto
    with exit(1) assms(3) have "cs = comments" by simp
    with exit(2) assms(4) np show ?thesis by simp
  next
    case (panic cs np t1)
    with Suc.prems(2) nl [OF panic(2)] have np: "n = num" "p = page" by auto
    with panic(1) assms(3) have "cs = comments" by simp
    with panic(2) assms(4) np show ?thesis by simp
  qed
qed

lemma issueUnit_loop_actions:
  assumes "issueUnit env root cord fuel issueVal num issue = Some (t, out)"
    and "ActListComments n p \<in> set t"
  obtains hd tl out' fin where
    "commentLoop env root cord fuel issueVal num 0 = Some (tl, out')"
    and "ActListComments n p \<in> set tl" and "t = hd @ tl @ fin"
    and "out' = Return () \<and> out = Return None \<and> fin = [ActPrintf (MFinished num)] \<or>
         out' \<noteq> Return () \<and> fin = [] \<and> (\<forall>k. out' = Exit k \<longrightarrow> out = Exit k)"
  using assms(1)
proof (cases rule: issueUnit_cases)
  case (loop_done b c tl)
  with assms(2) have "ActListComments n p \<in> set tl" by auto
  with loop_done that [of tl "Return ()" _ "[ActPrintf (MFinished num)]"] show ?thesis
    by simp
next
  case (loop_exit b c tl k)
  with assms(2) have "ActListComments n p \<in> set tl" by auto
  with loop_exit that [of tl "Exit k" _ "[]"] show ?thesis by simp
next
  case (loop_panic b c tl)
  with assms(2) have "ActListComments n p \<in> set tl" by auto
  with loop_panic that [of tl Panic _ "[]"] show ?thesis by simp
qed (use assms(2) in auto)

lemma issueUnit_list_fails:
  assumes "issueUnit env root cord fuel issueVal num issue = Some (t, out)"
    and "ActListComments n p \<in> set t" and "ListComments env n p = Inl e"
  shows "n = num \<and> out = Exit 1 \<and>
         (\<exists>t'. t = t' @ [ActPrintf (MListingCommentsFailed num p e), ActFprintln])"
proof -
  from assms(1,2) obtain hd tl out' fin where
    loop: "commentLoop env root cord fuel issueVal num 0 = Some (tl, out')"
    and mem: "ActListComments n p \<in> set tl" and t: "t = hd @ tl @ fin"
    and ends: "out' = Return () \<and> out = Return None \<and> fin = [ActPrintf (MFinished num)] \<or>
         out' \<noteq> Return () \<and> fin = [] \<and> (\<forall>k. out' = Exit k \<longrightarrow> out = Exit k)"
    by (rule issueUnit_loop_actions)
  from commentLoop_list_fails [OF loop mem assms(3)] obtain t' where
    n: "n = num" and o: "out' = Exit 1"
    and tl: "tl = t' @ [ActPrintf (MListingCommentsFailed num p e), ActFprintln]" by blast
  from ends o have "fin = []" and "out = Exit 1" by auto
  with t tl n show ?thesis by auto
qed

lemma issueUnit_batch_fails:
  assumes "issueUnit env root cord fuel issueVal num issue = Some (t, out)"
    and "ActListComments n p \<in> set t" and "ListComments env n p = Inr (comments, nextPage)"
    and "map_option snd (writeComments env root (cord n p) issueVal comments) =
           Some (Return (Some e))"
  shows "n = num \<and> out = Exit 1 \<and>
         (\<exists>t'. t = t' @ [ActPrintf (MWritingCommentsFailed num p e), ActFprintln])"
proof -
  from assms(1,2) obtain hd tl out' fin where
    loop: "commentLoop env root cord fuel issueVal num 0 = Some (tl, out')"
    and mem: "ActListComments n p \<in> set tl" and t: "t = hd @ tl @ fin"
    and ends: "out' = Return () \<and> out = Return None \<and> fin = [ActPrintf (MFinished num)] \<or>
         out' \<noteq> Return () \<and> fin = [] \<and> (\<forall>k. out' = Exit k \<longrightarrow> out = Exit k)"
    by (rule issueUnit_loop_actions)
  from commentLoop_batch_fails [OF loop mem assms(3,4)] obtain t' where
    n: "n = num" and o: "out' = Exit 1"
    and tl: "tl = t' @ [ActPrintf (MWritingCommentsFailed num p e), ActFprintln]" by blast
  from ends o have "fin = []" and "out = Exit 1" by auto
  with t tl n show ?thesis by auto
qed

text \<open>
  With enough fuel the loop over the comment pages gets to the first call or batch that
  fails, and ends there.
\<close>

lemma goodPages_step:
  assumes "goodPages env root cord issueVal num page (Suc K)"
  obtains comments nextPage t1 where
    "ListComments env num page = Inr (comments, nextPage)" and "nextPage \<noteq> 0"
    and "writeComments env root (cord num page) issueVal comments = Some (t1, Return None)"
    and "goodPages env root cord issueVal num nextPage K"
proof -
  from assms have ok: "commentBatchOK env root cord issueVal num page"
    and nz: "commentsNext env num page \<noteq> 0"
    unfolding goodPages_def by force+
  from ok obtain comments nextPage t1 where
    l: "ListComments env num page = Inr (comments, nextPage)"
    and w: "writeComments env root (cord num page) issueVal comments = Some (t1, Return None)"
    by (auto simp: commentBatchOK_def split: sum.splits)
  from l have nx: "commentsNext env num page = nextPage" by (simp add: commentsNext_def)
  have "goodPages env root cord issueVal num nextPage K"
    unfolding goodPages_def
  proof (intro allI impI)
    fix k assume "k < K"
    then have "Suc k < Suc K" by simp
    with assms have "commentBatchOK env root cord issueVal num (pageAt (commentsNext env num) page (Suc k)) \<and>
            commentsNext env num (pageAt (commentsNext env num) page (Suc k)) \<noteq> 0"
      unfolding goodPages_def by blast
    then show "commentBatchOK env root cord issueVal num (pageAt (commentsNext env num) nextPage k) \<and>
            commentsNext env num (pageAt (commentsNext env num) nextPage k) \<noteq> 0"
      using nx by (simp add: pageAt_shift del: pageAt.simps(2))
  qed
  with l w nz nx that show thesis by simp
qed

lemma commentLoop_ends_at_failure:
  assumes "goodPages env root cord issueVal num page K" and "K < fuel"
    and "ListComments env num (pageAt (commentsNext env num) page K) = Inl e \<or>
         (\<exists>comments nextPage.
            ListComments env num (pageAt (commentsNext env num) page K) = Inr (comments, nextPage) \<and>
            map_option snd (writeComments env root
              (cord num (pageAt (commentsNext env num) page K)) issueVal comments) =
              Some (Return (Some e)))"
  shows "\<exists>t. commentLoop env root cord fuel issueVal num page = Some (t, Exit 1) \<and>
             ActListComments num (pageAt (commentsNext env num) page K) \<in> set t"
  using assms
proof (induction K arbitrary: page fuel)
  case 0
  from "0.prems"(2) obtain f where f: "fuel = Suc f" by (cases fuel) auto
  from "0.prems"(3) show ?case
  proof
    assume "ListComments env num (pageAt (commentsNext env num) page 0) = Inl e"
    then show ?thesis unfolding f by (simp add: after_def Fatalf_def)
  next
    assume "\<exists>comments nextPage.
            ListComments env num (pageAt (commentsNext env num) page 0) = Inr (comments, nextPage) \<and>
            map_option snd (writeComments env root
              (cord num (pageAt (commentsNext env num) page 0)) issueVal comments) =
              Some (Return (Some e))"
    then obtain comments nextPage t1 where
      "ListComments env num page = Inr (comments, nextPage)"
      "writeComments env root (cord num page) issueVal comments = Some (t1, Return (Some e))"
      by auto
    then show ?thesis unfolding f by (simp add: after_def Fatalf_def)
  qed
next
  case (Suc K)
  from Suc.prems(2) obtain f where f: "fuel = Suc f" and Kf: "K < f" by (cases fuel) auto
  from Suc.prems(1) obtain comments nextPage t1 where
    l: "ListComments env num page = Inr (comments, nextPage)" and nz: "nextPage \<noteq> 0"
    and w: "writeComments env root (cord num page) issueVal comments = Some (t1, Return None)"
    and g: "goodPages env root cord issueVal num nextPage K"
    by (rule goodPages_step)
  from l have nx: "commentsNext env num page = nextPage" by (simp add: commentsNext_def)
  have sh: "pageAt (commentsNext env num) page (Suc K) = pageAt (commentsNext env num) nextPage K"
    using nx by (simp add: pageAt_shift del: pageAt.simps(2))
  from Suc.prems(3) have "ListComments env num (pageAt (commentsNext env num) nextPage K) = Inl e \<or>
         (\<exists>comments nextPage'.
            ListComments env num (pageAt (commentsNext env num) nextPage K) = Inr (comments, nextPage') \<and>
            map_option snd (writeComments env root
              (cord num (pageAt (commentsNext env num) nextPage K)) issueVal comments) =
              Some (Return (Some e)))"
    unfolding sh .
  from Suc.IH [OF g Kf this] obtain t2 where
    "commentLoop env root cord f issueVal num nextPage = Some (t2, Exit 1)"
    "ActListComments num (pageAt (commentsNext env num) nextPage K) \<in> set t2"
    by blast
  with l nz w show ?case unfolding f sh by (simp add: after_def)
qed

lemma issueUnit_None:
  "issueUnit env root cord fuel issueVal num issue = None \<Longrightarrow>
   commentLoop env root cord fuel issueVal num 0 = None"
  by (auto simp: issueUnit_def Let_def split: option.splits sum.splits if_splits outcome.splits)

lemma issueUnit_exit_status:
  assumes "issueUnit env root cord fuel issueVal num issue = Some (t, Exit n)"
  shows "commentLoop env root cord fuel issueVal num 0 \<noteq> None"
  using assms by (cases rule: issueUnit_cases) auto

lemma commentUnit_no_exit: "commentUnit env root issue v \<noteq> Some (t, Exit n)"
  by (auto simp: commentUnit_def Let_def split: option.splits sum.splits)

lemma writeComments_no_exit: "writeComments env root ord issue comments \<noteq> Some (t, Exit n)"
proof
  assume a: "writeComments env root ord issue comments = Some (t, Exit n)"
  then obtain num vals t1 where
    "errgroup_Wait ord (map (commentUnit env root issue) vals) = Some (t1, Exit n)"
    by (auto simp: writeComments_def after_Some_iff split: option.splits)
  from errgroup_Wait_stops [OF this] obtain tu where
    "Some (tu, Exit n) \<in> set (map (commentUnit env root issue) vals)" by blast
  then show False using commentUnit_no_exit by (metis (no_types, lifting) imageE list.set_map)
qed

lemma commentLoop_exit_one:
  assumes "commentLoop env root cord fuel issueVal num page = Some (t, Exit n)"
  shows "n = 1"
  using assms
proof (induction fuel arbitrary: page t)
  case 0
  then show ?case by simp
next
  case (Suc fuel)
  from Suc.prems show ?case
  proof (cases rule: commentLoop_cases)
    case (more comments nextPage t1 t2)
    from Suc.IH [OF more(4)] show ?thesis .
  next
    case (exit comments nextPage t1 k)
    with writeComments_no_exit show ?thesis by blast
  qed simp_all
qed

lemma issueUnit_exit_one:
  assumes "issueUnit env root cord fuel issueVal num issue = Some (t, Exit n)"
  shows "n = 1"
  using assms
proof (cases rule: issueUnit_cases)
  case (loop_exit b c tl k)
  with commentLoop_exit_one [OF loop_exit(7)] show ?thesis by simp
qed simp_all

lemma issueUnits_memE:
  assumes "u \<in> set (issueUnits env root adv cord fuel vals)"
  obtains v n w where "u = issueUnit env root cord fuel v n w"
  using assms unfolding issueUnits_def by auto

text \<open>
  Claim C2, as amended. A batch has one unit for each item, and its units run
  interleaved. When all the units of a batch return, every unit has done all its
  actions and the batch returns the first error in the order in which the units ended,
  and so nil exactly when every unit returned nil; this is always so for a batch of
  comments without nil pointers. A batch of issues returns only if all its units
  return. A unit of \<^verbatim>\<open>writeIssues\<close> that gets an error from a call of
  \<^verbatim>\<open>ListComments\<close>, or from the batch of a page of comments, does not return it: its
  last two actions are those of \<^verbatim>\<open>Fatalf\<close> with the error, and it leaves the process
  with status 1; with fuel for the pages before the failure the unit does get there. A
  batch with a unit that exits ends, when it ends, with status 1 or in a panic.
\<close>

theorem batch_first_error:
  "(Number issue = Some num \<and> derefAll comments = Some vals \<and> (\<forall>v\<in>set vals. ID v \<noteq> None) \<longrightarrow>
      (\<exists>t. writeComments env root ord issue comments =
              Some (ActPrintf (MProcessingComments (length comments) num) # t,
                    Return (firstError (completed ord (map (commentUnit env root issue) vals)))) \<and>
           mset t = mset (concat (map traceOf (map (commentUnit env root issue) vals)))) \<and>
      mset (completed ord (map (commentUnit env root issue) vals)) =
        mset (map resultOf (map (commentUnit env root issue) vals)) \<and>
      (firstError (completed ord (map (commentUnit env root issue) vals)) = None
         \<longleftrightarrow> (\<forall>v\<in>set vals. resultOf (commentUnit env root issue v) = None))) \<and>
   (derefIssues issues = Some ivals \<and>
    (\<forall>u\<in>set (issueUnits env root adv cord fuel ivals). returned u) \<longrightarrow>
      (\<exists>t. writeIssues env root ord adv cord fuel issues =
              Some (ActPrintf (MProcessingIssues (length issues)) # t,
                    Return (firstError (completed ord (issueUnits env root adv cord fuel ivals)))) \<and>
           mset t = mset (concat (map traceOf (issueUnits env root adv cord fuel ivals)))) \<and>
      mset (completed ord (issueUnits env root adv cord fuel ivals)) =
        mset (map resultOf (issueUnits env root adv cord fuel ivals)) \<and>
      (firstError (completed ord (issueUnits env root adv cord fuel ivals)) = None
         \<longleftrightarrow> (\<forall>u\<in>set (issueUnits env root adv cord fuel ivals). resultOf u = None))) \<and>
   (derefIssues issues = Some ivals \<and>
    writeIssues env root ord adv cord fuel issues = Some (tb, Return r) \<longrightarrow>
      (\<forall>u\<in>set (issueUnits env root adv cord fuel ivals). returned u)) \<and>
   (issueUnit env root cord fuel issueVal n rv = Some (tu, out) \<and> ActListComments n p \<in> set tu \<and>
    ListComments env n p = Inl e \<longrightarrow>
      out = Exit 1 \<and> (\<exists>t'. tu = t' @ [ActPrintf (MListingCommentsFailed n p e), ActFprintln])) \<and>
   (issueUnit env root cord fuel issueVal n rv = Some (tu, out) \<and> ActListComments n p \<in> set tu \<and>
    ListComments env n p = Inr (cs, np) \<and>
    map_option snd (writeComments env root (cord n p) issueVal cs) = Some (Return (Some e)) \<longrightarrow>
      out = Exit 1 \<and> (\<exists>t'. tu = t' @ [ActPrintf (MWritingCommentsFailed n p e), ActFprintln])) \<and>
   (goodPages env root cord issueVal n 0 K \<and> K < fuel \<and>
    (ListComments env n (pageAt (commentsNext env n) 0 K) = Inl e \<or>
     (\<exists>cs np. ListComments env n (pageAt (commentsNext env n) 0 K) = Inr (cs, np) \<and>
        map_option snd (writeComments env root (cord n (pageAt (commentsNext env n) 0 K)) issueVal cs) =
          Some (Return (Some e)))) \<longrightarrow>
      (\<exists>tl. commentLoop env root cord fuel issueVal n 0 = Some (tl, Exit 1) \<and>
            ActListComments n (pageAt (commentsNext env n) 0 K) \<in> set tl) \<and>
      issueUnit env root cord fuel issueVal n rv \<noteq> None) \<and>
   (derefIssues issues = Some ivals \<and>
    writeIssues env root ord adv cord fuel issues = Some (tb, outb) \<and>
    Some (tx, Exit k) \<in> set (issueUnits env root adv cord fuel ivals) \<longrightarrow>
      outb = Exit 1 \<or> outb = Panic)"
proof (intro conjI impI)
  assume a: "Number issue = Some num \<and> derefAll comments = Some vals \<and> (\<forall>v\<in>set vals. ID v \<noteq> None)"
  let ?us = "map (commentUnit env root issue) vals"
  have all: "\<forall>u\<in>set ?us. returned u"
    using a by (auto intro: commentUnit_returned)
  note w = errgroup_Wait_all_returned [OF all, of ord]
  from w a
  show "\<exists>t. writeComments env root ord issue comments =
              Some (ActPrintf (MProcessingComments (length comments) num) # t,
                    Return (firstError (completed ord ?us))) \<and>
           mset t = mset (concat (map traceOf ?us))"
    by (simp add: writeComments_def after_def)
  from w show m: "mset (completed ord ?us) = mset (map resultOf ?us)" by simp
  from m have "set (completed ord ?us) = set (map resultOf ?us)" by (metis set_mset_mset)
  then show "firstError (completed ord ?us) = None
         \<longleftrightarrow> (\<forall>v\<in>set vals. resultOf (commentUnit env root issue v) = None)"
    by (simp add: firstError_None_iff)
next
  assume a: "derefIssues issues = Some ivals \<and>
    (\<forall>u\<in>set (issueUnits env root adv cord fuel ivals). returned u)"
  let ?us = "issueUnits env root adv cord fuel ivals"
  from a have all: "\<forall>u\<in>set ?us. returned u" by simp
  note w = errgroup_Wait_all_returned [OF all, of ord]
  from w a
  show "\<exists>t. writeIssues env root ord adv cord fuel issues =
              Some (ActPrintf (MProcessingIssues (length issues)) # t,
                    Return (firstError (completed ord ?us))) \<and>
           mset t = mset (concat (map traceOf ?us))"
    by (simp add: writeIssues_def after_def)
  from w show m: "mset (completed ord ?us) = mset (map resultOf ?us)" by simp
  from m have "set (completed ord ?us) = set (map resultOf ?us)" by (metis set_mset_mset)
  then show "firstError (completed ord ?us) = None \<longleftrightarrow> (\<forall>u\<in>set ?us. resultOf u = None)"
    by (simp add: firstError_None_iff)
next
  assume a: "derefIssues issues = Some ivals \<and>
    writeIssues env root ord adv cord fuel issues = Some (tb, Return r)"
  then obtain t1 where
    "errgroup_Wait ord (issueUnits env root adv cord fuel ivals) = Some (t1, Return r)"
    by (auto simp: writeIssues_def after_Some_iff)
  from errgroup_Wait_returns_only_if [OF this]
  show "\<forall>u\<in>set (issueUnits env root adv cord fuel ivals). returned u" .
next
  assume a: "issueUnit env root cord fuel issueVal n rv = Some (tu, out) \<and>
    ActListComments n p \<in> set tu \<and> ListComments env n p = Inl e"
  then have 1: "issueUnit env root cord fuel issueVal n rv = Some (tu, out)"
    and 2: "ActListComments n p \<in> set tu" and 3: "ListComments env n p = Inl e" by simp_all
  from issueUnit_list_fails [OF 1 2 3]
  show "out = Exit 1" and "\<exists>t'. tu = t' @ [ActPrintf (MListingCommentsFailed n p e), ActFprintln]"
    by simp_all
next
  assume a: "issueUnit env root cord fuel issueVal n rv = Some (tu, out) \<and>
    ActListComments n p \<in> set tu \<and> ListComments env n p = Inr (cs, np) \<and>
    map_option snd (writeComments env root (cord n p) issueVal cs) = Some (Return (Some e))"
  then have 1: "issueUnit env root cord fuel issueVal n rv = Some (tu, out)"
    and 2: "ActListComments n p \<in> set tu" and 3: "ListComments env n p = Inr (cs, np)"
    and 4: "map_option snd (writeComments env root (cord n p) issueVal cs) = Some (Return (Some e))"
    by simp_all
  from issueUnit_batch_fails [OF 1 2 3 4]
  show "out = Exit 1" and "\<exists>t'. tu = t' @ [ActPrintf (MWritingCommentsFailed n p e), ActFprintln]"
    by simp_all
next
  assume a: "goodPages env root cord issueVal n 0 K \<and> K < fuel \<and>
    (ListComments env n (pageAt (commentsNext env n) 0 K) = Inl e \<or>
     (\<exists>cs np. ListComments env n (pageAt (commentsNext env n) 0 K) = Inr (cs, np) \<and>
        map_option snd (writeComments env root (cord n (pageAt (commentsNext env n) 0 K)) issueVal cs) =
          Some (Return (Some e))))"
  then have 1: "goodPages env root cord issueVal n 0 K" and 2: "K < fuel"
    and 3: "ListComments env n (pageAt (commentsNext env n) 0 K) = Inl e \<or>
     (\<exists>cs np. ListComments env n (pageAt (commentsNext env n) 0 K) = Inr (cs, np) \<and>
        map_option snd (writeComments env root (cord n (pageAt (commentsNext env n) 0 K)) issueVal cs) =
          Some (Return (Some e)))" by simp_all
  from commentLoop_ends_at_failure [OF 1 2 3]
  show l: "\<exists>tl. commentLoop env root cord fuel issueVal n 0 = Some (tl, Exit 1) \<and>
            ActListComments n (pageAt (commentsNext env n) 0 K) \<in> set tl" .
  show "issueUnit env root cord fuel issueVal n rv \<noteq> None"
  proof
    assume "issueUnit env root cord fuel issueVal n rv = None"
    from issueUnit_None [OF this] l show False by simp
  qed
next
  assume a: "derefIssues issues = Some ivals \<and>
    writeIssues env root ord adv cord fuel issues = Some (tb, outb) \<and>
    Some (tx, Exit k) \<in> set (issueUnits env root adv cord fuel ivals)"
  let ?us = "issueUnits env root adv cord fuel ivals"
  from a obtain t1 where w: "errgroup_Wait ord ?us = Some (t1, outb)"
    by (auto simp: writeIssues_def after_Some_iff)
  show "outb = Exit 1 \<or> outb = Panic"
  proof (cases outb)
    case (Return r)
    with errgroup_Wait_returns_only_if w have "\<forall>u\<in>set ?us. returned u" by blast
    with a show ?thesis by (auto simp: returned_iff)
  next
    case (Exit j)
    with errgroup_Wait_stops [OF w] obtain ty where ty: "Some (ty, Exit j) \<in> set ?us" by blast
    then obtain v m w' where "issueUnit env root cord fuel v m w' = Some (ty, Exit j)"
      by (metis issueUnits_memE)
    from issueUnit_exit_one [OF this] Exit show ?thesis by simp
  next
    case Panic
    then show ?thesis by simp
  qed
qed

theorem batch_first_error_witness:
  "derefAll [mkComment 70, mkComment 71, mkComment 72] =
     Some [\<lparr>ID = Some 70, CommentRest = ''70''\<rparr>, \<lparr>ID = Some 71, CommentRest = ''71''\<rparr>,
           \<lparr>ID = Some 72, CommentRest = ''72''\<rparr>] \<and>
   map_option snd
     (writeComments (simEnv (onePage []) threeComments failingWrites) specRoot (\<lambda>k. 0)
        \<lparr>Number = Some 7, Comments = Some 3, IssueRest = ''7''\<rparr>
        [mkComment 70, mkComment 71, mkComment 72]) = Some (Return (Some ''write 70 failed'')) \<and>
   map_option snd
     (writeComments (simEnv (onePage []) threeComments failingWrites) specRoot (\<lambda>k. 2)
        \<lparr>Number = Some 7, Comments = Some 3, IssueRest = ''7''\<rparr>
        [mkComment 70, mkComment 71, mkComment 72]) = Some (Return (Some ''write 72 failed'')) \<and>
   derefIssues [mkIssue 1 0, mkIssue 2 0] =
     Some [(\<lparr>Number = Some 1, Comments = Some 0, IssueRest = ''1''\<rparr>, 1),
           (\<lparr>Number = Some 2, Comments = Some 0, IssueRest = ''2''\<rparr>, 2)] \<and>
   list_all returned
     (issueUnits (simEnv (onePage []) threeComments failingWrites) specRoot (\<lambda>i. 0) (\<lambda>n p k. 0) 2
        [(\<lparr>Number = Some 1, Comments = Some 0, IssueRest = ''1''\<rparr>, 1),
         (\<lparr>Number = Some 2, Comments = Some 0, IssueRest = ''2''\<rparr>, 2)]) \<and>
   map_option snd
     (writeIssues (simEnv (onePage []) threeComments failingWrites) specRoot (\<lambda>k. k) (\<lambda>i. 0)
        (\<lambda>n p k. 0) 2 [mkIssue 1 0, mkIssue 2 0]) = Some (Return (Some ''write 2 failed'')) \<and>
   ListComments (simEnv (onePage []) secondPageFails (\<lambda>p. None)) 7 2 = Inl ''list failed'' \<and>
   goodPages (simEnv (onePage []) secondPageFails (\<lambda>p. None)) specRoot (\<lambda>n p k. 0)
     \<lparr>Number = Some 7, Comments = Some 3, IssueRest = ''7''\<rparr> 7 0 1 \<and>
   (\<exists>tl. commentLoop (simEnv (onePage []) secondPageFails (\<lambda>p. None)) specRoot (\<lambda>n p k. 0) 2
           \<lparr>Number = Some 7, Comments = Some 3, IssueRest = ''7''\<rparr> 7 0 = Some (tl, Exit 1) \<and>
         ActListComments 7 2 \<in> set tl) \<and>
   issueUnit (simEnv (onePage []) secondPageFails (\<lambda>p. None)) specRoot (\<lambda>n p k. 0) 2
     \<lparr>Number = Some 7, Comments = Some 3, IssueRest = ''7''\<rparr> 7
     \<lparr>Number = Some 7, Comments = Some 3, IssueRest = ''7''\<rparr> =
   Some ([ActPrintf (MStarted 7), ActMkdirAll (IssueDir 7) ''issues'' 493 None,
          ActWriteFile (IssueFile 7) ''issues/7.json'' ''{issue 7}'' 420 None,
          ActMkdirAll (CommentsDir 7) ''issues/7/comments'' 493 None,
          ActPrintf (MListCommentsCall 7 0), ActListComments 7 0,
          ActPrintf (MProcessingComments 2 7),
          ActWriteFile (CommentFile 7 70) ''issues/7/comments/70.json'' ''{comment 70}'' 420 None,
          ActWriteFile (CommentFile 7 71) ''issues/7/comments/71.json'' ''{comment 71}'' 420 None,
          ActPrintf (MListCommentsCall 7 2), ActListComments 7 2,
          ActPrintf (MListingCommentsFailed 7 2 ''list failed''), ActFprintln], Exit 1) \<and>
   map_option snd
     (writeComments (simEnv (onePage []) threeComments failingWrites) specRoot (\<lambda>k. 0)
        \<lparr>Number = Some 7, Comments = Some 3, IssueRest = ''7''\<rparr>
        [mkComment 70, mkComment 71]) = Some (Return (Some ''write 70 failed'')) \<and>
   issueUnit (simEnv (onePage []) threeComments failingWrites) specRoot (\<lambda>n p k. 0) 2
     \<lparr>Number = Some 7, Comments = Some 3, IssueRest = ''7''\<rparr> 7
     \<lparr>Number = Some 7, Comments = Some 3, IssueRest = ''7''\<rparr> =
   Some ([ActPrintf (MStarted 7), ActMkdirAll (IssueDir 7) ''issues'' 493 None,
          ActWriteFile (IssueFile 7) ''issues/7.json'' ''{issue 7}'' 420 None,
          ActMkdirAll (CommentsDir 7) ''issues/7/comments'' 493 None,
          ActPrintf (MListCommentsCall 7 0), ActListComments 7 0,
          ActPrintf (MProcessingComments 2 7),
          ActWriteFile (CommentFile 7 70) ''issues/7/comments/70.json'' ''{comment 70}'' 420
            (Some ''write 70 failed''),
          ActWriteFile (CommentFile 7 71) ''issues/7/comments/71.json'' ''{comment 71}'' 420 None,
          ActPrintf (MWritingCommentsFailed 7 0 ''write 70 failed''), ActFprintln], Exit 1) \<and>
   writeIssues (simEnv (onePage []) secondPageFails (\<lambda>p. None)) specRoot
     (\<lambda>k. if k < 12 then 0 else if k < 15 then 1 else 0) (\<lambda>i. 0) (\<lambda>n p k. 0) 2
     [mkIssue 7 3, mkIssue 1 0] =
   Some ([ActPrintf (MProcessingIssues 2), ActPrintf (MStarted 7),
          ActMkdirAll (IssueDir 7) ''issues'' 493 None,
          ActWriteFile (IssueFile 7) ''issues/7.json'' ''{issue 7}'' 420 None,
          ActMkdirAll (CommentsDir 7) ''issues/7/comments'' 493 None,
          ActPrintf (MListCommentsCall 7 0), ActListComments 7 0,
          ActPrintf (MProcessingComments 2 7),
          ActWriteFile (CommentFile 7 70) ''issues/7/comments/70.json'' ''{comment 70}'' 420 None,
          ActWriteFile (CommentFile 7 71) ''issues/7/comments/71.json'' ''{comment 71}'' 420 None,
          ActPrintf (MListCommentsCall 7 2), ActListComments 7 2,
          ActPrintf (MListingCommentsFailed 7 2 ''list failed''),
          ActPrintf (MStarted 1), ActMkdirAll (IssueDir 1) ''issues'' 493 None,
          ActWriteFile (IssueFile 1) ''issues/1.json'' ''{issue 1}'' 420 None,
          ActFprintln], Exit 1)"
proof -
  let ?envF = "simEnv (onePage []) threeComments failingWrites"
  let ?envL = "simEnv (onePage []) secondPageFails (\<lambda>p. None)"
  let ?i7 = "\<lparr>Number = Some 7, Comments = Some 3, IssueRest = ''7''\<rparr>"
  let ?cs = "[mkComment 70, mkComment 71, mkComment 72]"
  let ?vals = "[\<lparr>ID = Some 70, CommentRest = ''70''\<rparr>, \<lparr>ID = Some 71, CommentRest = ''71''\<rparr>,
                \<lparr>ID = Some 72, CommentRest = ''72''\<rparr>]"
  let ?ivals = "[(\<lparr>Number = Some 1, Comments = Some 0, IssueRest = ''1''\<rparr>, 1),
                 (\<lparr>Number = Some 2, Comments = Some 0, IssueRest = ''2''\<rparr>, 2::int)]"
  let ?cord = "\<lambda>(n::int) (p::int) (k::nat). 0::nat"
  let ?tL = "[ActPrintf (MStarted 7), ActMkdirAll (IssueDir 7) ''issues'' 493 None,
          ActWriteFile (IssueFile 7) ''issues/7.json'' ''{issue 7}'' 420 None,
          ActMkdirAll (CommentsDir 7) ''issues/7/comments'' 493 None,
          ActPrintf (MListCommentsCall 7 0), ActListComments 7 0,
          ActPrintf (MProcessingComments 2 7),
          ActWriteFile (CommentFile 7 70) ''issues/7/comments/70.json'' ''{comment 70}'' 420 None,
          ActWriteFile (CommentFile 7 71) ''issues/7/comments/71.json'' ''{comment 71}'' 420 None,
          ActPrintf (MListCommentsCall 7 2), ActListComments 7 2,
          ActPrintf (MListingCommentsFailed 7 2 ''list failed''), ActFprintln]"
  let ?tF = "[ActPrintf (MStarted 7), ActMkdirAll (IssueDir 7) ''issues'' 493 None,
          ActWriteFile (IssueFile 7) ''issues/7.json'' ''{issue 7}'' 420 None,
          ActMkdirAll (CommentsDir 7) ''issues/7/comments'' 493 None,
          ActPrintf (MListCommentsCall 7 0), ActListComments 7 0,
          ActPrintf (MProcessingComments 2 7),
          ActWriteFile (CommentFile 7 70) ''issues/7/comments/70.json'' ''{comment 70}'' 420
            (Some ''write 70 failed''),
          ActWriteFile (CommentFile 7 71) ''issues/7/comments/71.json'' ''{comment 71}'' 420 None,
          ActPrintf (MWritingCommentsFailed 7 0 ''write 70 failed''), ActFprintln]"
  have d: "derefAll ?cs = Some ?vals" by code_simp
  have ids: "\<forall>v\<in>set ?vals. ID v \<noteq> None" by simp
  have e0: "firstError (completed (\<lambda>k. 0) (map (commentUnit ?envF specRoot ?i7) ?vals)) =
              Some ''write 70 failed''" by code_simp
  have e2: "firstError (completed (\<lambda>k. 2) (map (commentUnit ?envF specRoot ?i7) ?vals)) =
              Some ''write 72 failed''" by code_simp
  from batch_first_error [where issue = ?i7 and num = 7 and vals = ?vals and comments = ?cs
      and env = ?envF and root = specRoot and ord = "\<lambda>k. 0", THEN conjunct1] d ids e0
  have r0: "map_option snd (writeComments ?envF specRoot (\<lambda>k. 0) ?i7 ?cs) =
              Some (Return (Some ''write 70 failed''))" by auto
  from batch_first_error [where issue = ?i7 and num = 7 and vals = ?vals and comments = ?cs
      and env = ?envF and root = specRoot and ord = "\<lambda>k. 2", THEN conjunct1] d ids e2
  have r2: "map_option snd (writeComments ?envF specRoot (\<lambda>k. 2) ?i7 ?cs) =
              Some (Return (Some ''write 72 failed''))" by auto
  have di: "derefIssues [mkIssue 1 0, mkIssue 2 0] = Some ?ivals" by code_simp
  have ret: "list_all returned (issueUnits ?envF specRoot (\<lambda>i. 0) ?cord 2 ?ivals)"
    by code_simp
  then have ret': "\<forall>u\<in>set (issueUnits ?envF specRoot (\<lambda>i. 0) ?cord 2 ?ivals). returned u"
    by (simp only: list_all_iff)
  have ei: "firstError (completed (\<lambda>k. k) (issueUnits ?envF specRoot (\<lambda>i. 0) ?cord 2 ?ivals)) =
              Some ''write 2 failed''" by code_simp
  from batch_first_error [where issues = "[mkIssue 1 0, mkIssue 2 0]" and ivals = ?ivals
      and env = ?envF and root = specRoot and ord = "\<lambda>k. k" and adv = "\<lambda>i. 0" and cord = ?cord
      and fuel = 2, THEN conjunct2, THEN conjunct1] di ret' ei
  have ri: "map_option snd (writeIssues ?envF specRoot (\<lambda>k. k) (\<lambda>i. 0) ?cord 2
              [mkIssue 1 0, mkIssue 2 0]) = Some (Return (Some ''write 2 failed''))" by auto
  have lf: "ListComments ?envL 7 2 = Inl ''list failed''"
    by (simp add: simEnv_def secondPageFails_def)
  have b0: "commentBatchOK ?envL specRoot ?cord ?i7 7 0" by code_simp
  have nx: "commentsNext ?envL 7 0 = 2"
    by (simp add: commentsNext_def simEnv_def secondPageFails_def)
  have gp: "goodPages ?envL specRoot ?cord ?i7 7 0 1"
    using b0 nx by (simp add: goodPages_def)
  have pg: "pageAt (commentsNext ?envL 7) 0 1 = 2" using nx by simp
  from batch_first_error [where env = ?envL and root = specRoot and cord = ?cord and fuel = 2
      and issueVal = ?i7 and n = 7 and K = 1 and e = "''list failed''",
      THEN conjunct2, THEN conjunct2, THEN conjunct2, THEN conjunct2, THEN conjunct2, THEN conjunct1]
  have ends0: "goodPages ?envL specRoot ?cord ?i7 7 0 1 \<and> (1::nat) < 2 \<and>
      (ListComments ?envL 7 (pageAt (commentsNext ?envL 7) 0 1) = Inl ''list failed'' \<or>
       (\<exists>cs np. ListComments ?envL 7 (pageAt (commentsNext ?envL 7) 0 1) = Inr (cs, np) \<and>
          map_option snd (writeComments ?envL specRoot (?cord 7 (pageAt (commentsNext ?envL 7) 0 1))
            ?i7 cs) = Some (Return (Some ''list failed'')))) \<longrightarrow>
      (\<exists>tl. commentLoop ?envL specRoot ?cord 2 ?i7 7 0 = Some (tl, Exit 1) \<and>
            ActListComments 7 (pageAt (commentsNext ?envL 7) 0 1) \<in> set tl) \<and>
      issueUnit ?envL specRoot ?cord 2 ?i7 7 rv \<noteq> None" for rv .
  have lf': "ListComments ?envL 7 (pageAt (commentsNext ?envL 7) 0 1) = Inl ''list failed''"
    unfolding pg by (rule lf)
  have lt: "(1::nat) < 2" by simp
  from ends0 [of ?i7] gp lt lf'
  have "\<exists>tl. commentLoop ?envL specRoot ?cord 2 ?i7 7 0 = Some (tl, Exit 1) \<and>
            ActListComments 7 (pageAt (commentsNext ?envL 7) 0 1) \<in> set tl" by blast
  then have ends: "\<exists>tl. commentLoop ?envL specRoot ?cord 2 ?i7 7 0 = Some (tl, Exit 1) \<and>
                ActListComments 7 2 \<in> set tl" unfolding pg .
  have tl: "map_option fst (issueUnit ?envL specRoot ?cord 2 ?i7 7 ?i7) = Some ?tL" by code_simp
  then obtain oL where uL: "issueUnit ?envL specRoot ?cord 2 ?i7 7 ?i7 = Some (?tL, oL)" by auto
  from batch_first_error [where env = ?envL and root = specRoot and cord = ?cord and fuel = 2
      and issueVal = ?i7 and n = 7 and rv = ?i7 and tu = ?tL and out = oL and p = 2
      and e = "''list failed''", THEN conjunct2, THEN conjunct2, THEN conjunct2, THEN conjunct1]
    uL lf
  have "oL = Exit 1" by simp
  with uL have rL: "issueUnit ?envL specRoot ?cord 2 ?i7 7 ?i7 = Some (?tL, Exit 1)" by simp
  have l0: "ListComments ?envF 7 0 = Inr ([mkComment 70, mkComment 71], 2)"
    by (simp add: simEnv_def threeComments_def)
  have wf: "map_option snd (writeComments ?envF specRoot (\<lambda>k. 0) ?i7 [mkComment 70, mkComment 71]) =
              Some (Return (Some ''write 70 failed''))" by code_simp
  have tf: "map_option fst (issueUnit ?envF specRoot ?cord 2 ?i7 7 ?i7) = Some ?tF" by code_simp
  then obtain oF where uF: "issueUnit ?envF specRoot ?cord 2 ?i7 7 ?i7 = Some (?tF, oF)" by auto
  from batch_first_error [where env = ?envF and root = specRoot and cord = ?cord and fuel = 2
      and issueVal = ?i7 and n = 7 and rv = ?i7 and tu = ?tF and out = oF and p = 0
      and cs = "[mkComment 70, mkComment 71]" and np = 2 and e = "''write 70 failed''",
      THEN conjunct2, THEN conjunct2, THEN conjunct2, THEN conjunct2, THEN conjunct1]
    uF l0 wf
  have "oF = Exit 1" by simp
  with uF have rF: "issueUnit ?envF specRoot ?cord 2 ?i7 7 ?i7 = Some (?tF, Exit 1)" by simp
  have rb: "writeIssues ?envL specRoot (\<lambda>k. if k < 12 then 0 else if k < 15 then 1 else 0)
     (\<lambda>i. 0) ?cord 2 [mkIssue 7 3, mkIssue 1 0] =
   Some ([ActPrintf (MProcessingIssues 2), ActPrintf (MStarted 7),
          ActMkdirAll (IssueDir 7) ''issues'' 493 None,
          ActWriteFile (IssueFile 7) ''issues/7.json'' ''{issue 7}'' 420 None,
          ActMkdirAll (CommentsDir 7) ''issues/7/comments'' 493 None,
          ActPrintf (MListCommentsCall 7 0), ActListComments 7 0,
          ActPrintf (MProcessingComments 2 7),
          ActWriteFile (CommentFile 7 70) ''issues/7/comments/70.json'' ''{comment 70}'' 420 None,
          ActWriteFile (CommentFile 7 71) ''issues/7/comments/71.json'' ''{comment 71}'' 420 None,
          ActPrintf (MListCommentsCall 7 2), ActListComments 7 2,
          ActPrintf (MListingCommentsFailed 7 2 ''list failed''),
          ActPrintf (MStarted 1), ActMkdirAll (IssueDir 1) ''issues'' 493 None,
          ActWriteFile (IssueFile 1) ''issues/1.json'' ''{issue 1}'' 420 None,
          ActFprintln], Exit 1)"
    by code_simp
  have dL: "derefIssues [mkIssue 7 3, mkIssue 1 0] =
      Some [(?i7, 7), (\<lparr>Number = Some 1, Comments = Some 0, IssueRest = ''1''\<rparr>, 1)]"
    by code_simp
  have "issueUnits ?envL specRoot (\<lambda>i. 0) ?cord 2
          [(?i7, 7), (\<lparr>Number = Some 1, Comments = Some 0, IssueRest = ''1''\<rparr>, 1)] ! 0 =
        issueUnit ?envL specRoot ?cord 2 ?i7 7 ?i7"
    by (simp add: issueUnits_def rangeVarAt_def)
  moreover have "length (issueUnits ?envL specRoot (\<lambda>i. 0) ?cord 2
          [(?i7, 7), (\<lparr>Number = Some 1, Comments = Some 0, IssueRest = ''1''\<rparr>, 1)]) = 2"
    by (simp add: issueUnits_def)
  ultimately have mem: "Some (?tL, Exit 1) \<in> set (issueUnits ?envL specRoot (\<lambda>i. 0) ?cord 2
          [(?i7, 7), (\<lparr>Number = Some 1, Comments = Some 0, IssueRest = ''1''\<rparr>, 1)])"
    using rL by (metis nth_mem zero_less_numeral)
  from batch_first_error [where env = ?envL and root = specRoot and cord = ?cord and fuel = 2
      and issues = "[mkIssue 7 3, mkIssue 1 0]" and adv = "\<lambda>i. 0"
      and ord = "\<lambda>k. if k < 12 then 0 else if k < 15 then 1 else 0"
      and outb = "Exit 1" and tx = ?tL and k = 1,
      THEN conjunct2, THEN conjunct2, THEN conjunct2, THEN conjunct2, THEN conjunct2, THEN conjunct2]
  have last0: "Exit 1 = (Exit 1 :: (goerror option) outcome) \<or>
               Exit 1 = (Panic :: (goerror option) outcome)"
    using dL rb mem by blast
  from d r0 r2 di ret ri lf gp ends rL wf rF rb show ?thesis by blast
qed

theorem batch_exit_counterexample:
  "writeIssues (simEnv (onePage []) noComments (\<lambda>p. None)) specRoot (\<lambda>k. 0) (\<lambda>i. 0) (\<lambda>n p k. 0) 2
     [mkIssue 1 1] =
   Some ([ActPrintf (MProcessingIssues 1), ActPrintf (MStarted 1),
          ActMkdirAll (IssueDir 1) ''issues'' 493 None,
          ActWriteFile (IssueFile 1) ''issues/1.json'' ''{issue 1}'' 420 None,
          ActMkdirAll (CommentsDir 1) ''issues/1/comments'' 493 None,
          ActPrintf (MListCommentsCall 1 0), ActListComments 1 0,
          ActPrintf (MListingCommentsFailed 1 0 ''list failed''), ActFprintln],
         Exit 1)"
  by code_simp

end
